theory Spec2Isabelle
  imports Complex_Main "HOL-Library.Multiset"
begin

section \<open>Common Python data\<close>

text \<open>
  Python \<open>str\<close> values are modelled as \<open>string\<close>, read as the UTF-8 bytes of the text
  (concatenation, joining and equality of Python strings are those of their encodings).
  \<open>time.time()\<close> is an input of every operation that reads the clock; the float seconds
  are modelled as exact rationals. Python \<open>int\<close> is \<open>int\<close>.
\<close>

type_synonym time = rat

datatype py_error = IndexError | KeyError | AttributeError | TypeError | OtherError string

text \<open>
  Metadata values (\<open>Any\<close> in the source) are the scalars the ingestion writes: \<open>None\<close>,
  strings and numbers. Python compares numbers by value (\<open>1 == 1.0 == True\<close>, with equal
  hashes), so one constructor holds them all and equality of \<open>pyval\<close> is Python's \<open>==\<close>.
\<close>

datatype pyval = PyNone | PyStr string | PyNum rat

text \<open>Truth value testing, as in \<open>if parent_id:\<close>.\<close>

fun py_truthy :: "pyval \<Rightarrow> bool" where
  "py_truthy PyNone = False"
| "py_truthy (PyStr s) = (s \<noteq> [])"
| "py_truthy (PyNum x) = (x \<noteq> 0)"

text \<open>
  An \<open>OrderedDict\<close> (and a plain \<open>dict\<close>, which keeps insertion order too) is an
  association list with distinct keys, oldest insertion first. \<open>d[k] = v\<close> keeps the place
  of an existing key and appends a new one; \<open>del d[k]\<close> removes the key;
  \<open>d.move_to_end(k)\<close> puts an existing key last.
\<close>

type_synonym ('k, 'v) odict = "('k \<times> 'v) list"

fun od_set :: "'k \<Rightarrow> 'v \<Rightarrow> ('k, 'v) odict \<Rightarrow> ('k, 'v) odict" where
  "od_set k v [] = [(k, v)]"
| "od_set k v (p # ps) = (if fst p = k then (k, v) # ps else p # od_set k v ps)"

definition od_del :: "'k \<Rightarrow> ('k, 'v) odict \<Rightarrow> ('k, 'v) odict" where
  "od_del k d = filter (\<lambda>p. fst p \<noteq> k) d"

definition od_move_to_end :: "'k \<Rightarrow> ('k, 'v) odict \<Rightarrow> ('k, 'v) odict" where
  "od_move_to_end k d = (case map_of d k of None \<Rightarrow> d | Some v \<Rightarrow> od_del k d @ [(k, v)])"

text \<open>
  Slices with one bound. \<open>xs[i:]\<close>: a negative \<open>i\<close> counts from the end and is clamped at
  the start of the list; \<open>xs[-0:]\<close> is \<open>xs[0:]\<close>, the whole list. \<open>xs[:i]\<close> likewise.
\<close>

definition py_slice_from :: "'a list \<Rightarrow> int \<Rightarrow> 'a list" where
  "py_slice_from xs i =
     (if i < 0 then drop (nat (int (length xs) + i)) xs else drop (nat i) xs)"

definition py_slice_to :: "'a list \<Rightarrow> int \<Rightarrow> 'a list" where
  "py_slice_to xs i =
     (if i < 0 then take (nat (int (length xs) + i)) xs else take (nat i) xs)"

text \<open>\<open>sep.join(parts)\<close>.\<close>

fun py_join :: "string \<Rightarrow> string list \<Rightarrow> string" where
  "py_join sep [] = []"
| "py_join sep [p] = p"
| "py_join sep (p # q # ps) = p @ sep @ py_join sep (q # ps)"

section \<open>session\_manager.py\<close>

record Message =
  role :: string
  content :: string
  timestamp :: time
  metadata :: "string \<rightharpoonup> pyval"

record Session =
  session_id :: string
  user_id :: string
  messages :: "Message list"
  created_at :: time
  updated_at :: time
  session_metadata :: "string \<rightharpoonup> pyval"

record SessionManager =
  max_sessions :: int
  max_history :: int
  session_ttl :: int
  context_window :: int
  sessions :: "(string, Session) odict"

text \<open>\<open>SessionManager.get_session\<close>: absent or expired gives \<open>None\<close> (an expired session is
  deleted); a live session is moved to the end of the table.\<close>

definition get_session :: "SessionManager \<Rightarrow> string \<Rightarrow> time \<Rightarrow> Session option \<times> SessionManager" where
  "get_session sm sid now =
     (case map_of (sessions sm) sid of
        None \<Rightarrow> (None, sm)
      | Some s \<Rightarrow>
          if now - updated_at s > of_int (session_ttl sm)
          then (None, sm\<lparr>sessions := od_del sid (sessions sm)\<rparr>)
          else (Some s, sm\<lparr>sessions := od_move_to_end sid (sessions sm)\<rparr>))"

text \<open>
  The trimming loop of \<open>add_message\<close>:
  \<^verbatim>\<open>while len(session.messages) > self.max_history * 2:
      session.messages.pop(0)
      session.messages.pop(0)\<close>
  \<open>pop(0)\<close> on an empty list raises \<open>IndexError\<close>; the list is mutated in place, so the
  result carries the list as the loop left it together with the error, if any.
\<close>

fun trim_history :: "int \<Rightarrow> Message list \<Rightarrow> py_error option \<times> Message list" where
  "trim_history mh [] = (if 0 > mh * 2 then (Some IndexError, []) else (None, []))"
| "trim_history mh [m] = (if 1 > mh * 2 then (Some IndexError, []) else (None, [m]))"
| "trim_history mh (m1 # m2 # ms) =
     (if int (length (m1 # m2 # ms)) > mh * 2 then trim_history mh ms
      else (None, m1 # m2 # ms))"

text \<open>
  \<open>SessionManager.add_message\<close>. The three clock reads of the call are \<open>t_get\<close> (inside
  \<open>get_session\<close>), \<open>t_msg\<close> (the message's timestamp) and \<open>t_upd\<close> (\<open>updated_at\<close>).
  The session object lives in the table, so its mutation is a write to the table entry.
\<close>

definition add_message ::
  "SessionManager \<Rightarrow> string \<Rightarrow> string \<Rightarrow> string \<Rightarrow> (string \<rightharpoonup> pyval) option
     \<Rightarrow> time \<Rightarrow> time \<Rightarrow> time \<Rightarrow> (py_error + bool) \<times> SessionManager" where
  "add_message sm sid r c md t_get t_msg t_upd =
     (case get_session sm sid t_get of
        (None, sm1) \<Rightarrow> (Inr False, sm1)
      | (Some s, sm1) \<Rightarrow>
          let message = \<lparr>role = r, content = c, timestamp = t_msg,
                         metadata = (case md of None \<Rightarrow> Map.empty | Some m \<Rightarrow> m)\<rparr>;
              appended = messages s @ [message];
              (err, trimmed) = trim_history (max_history sm1) appended;
              s' = s\<lparr>messages := trimmed, updated_at := t_upd\<rparr>;
              sm2 = sm1\<lparr>sessions := od_set sid s' (sessions sm1)\<rparr>
          in (case err of Some e \<Rightarrow> (Inl e, sm2) | None \<Rightarrow> (Inr True, sm2)))"





text \<open>\<open>SessionManager.get_messages\<close>; each returned dict is the list of its two items.\<close>

definition message_dict :: "Message \<Rightarrow> (string \<times> string) list" where
  "message_dict msg = [(''role'', role msg), (''content'', content msg)]"

definition get_messages ::
  "SessionManager \<Rightarrow> string \<Rightarrow> int option \<Rightarrow> time \<Rightarrow> (string \<times> string) list list \<times> SessionManager" where
  "get_messages sm sid limit now =
     (case get_session sm sid now of
        (None, sm1) \<Rightarrow> ([], sm1)
      | (Some s, sm1) \<Rightarrow>
          let msgs = (case limit of
                        None \<Rightarrow> messages s
                      | Some l \<Rightarrow> if l \<noteq> 0 then py_slice_from (messages s) (- l) else messages s)
          in (map message_dict msgs, sm1))"

text \<open>A session is live at \<open>now\<close> when the table holds it and its idle time is within the TTL.\<close>

definition live_session :: "SessionManager \<Rightarrow> string \<Rightarrow> time \<Rightarrow> Session \<Rightarrow> bool" where
  "live_session sm sid now s \<longleftrightarrow>
     map_of (sessions sm) sid = Some s \<and> \<not> (now - updated_at s > of_int (session_ttl sm))"

text \<open>
  A sequence of \<open>add_message\<close> calls, each with its arguments and clock reads; a call
  that raises ends the sequence, as the exception would.
\<close>

type_synonym add_call = "string \<times> string \<times> string \<times> (string \<rightharpoonup> pyval) option \<times> time \<times> time \<times> time"

fun add_messages :: "SessionManager \<Rightarrow> add_call list \<Rightarrow> py_error option \<times> SessionManager" where
  "add_messages sm [] = (None, sm)"
| "add_messages sm ((sid, r, c, md, t_get, t_msg, t_upd) # calls) =
     (case add_message sm sid r c md t_get t_msg t_upd of
        (Inl e, sm') \<Rightarrow> (Some e, sm')
      | (Inr ok, sm') \<Rightarrow> add_messages sm' calls)"

text \<open>Every session of the table holds at most \<open>2 * max_history\<close> messages.\<close>

definition history_bounded :: "SessionManager \<Rightarrow> bool" where
  "history_bounded sm \<longleftrightarrow>
     list_all (\<lambda>p. int (length (messages (snd p))) \<le> 2 * max_history sm) (sessions sm)"

text \<open>A small table used to instantiate the results below.\<close>

definition ex_message :: "string \<Rightarrow> string \<Rightarrow> Message" where
  "ex_message r c = \<lparr>role = r, content = c, timestamp = 0, metadata = Map.empty\<rparr>"

definition ex_session :: Session where
  "ex_session = \<lparr>session_id = ''s1'', user_id = ''anonymous'',
     messages = [ex_message ''user'' ''A'', ex_message ''assistant'' ''B'', ex_message ''user'' ''C''],
     created_at = 0, updated_at = 0, session_metadata = Map.empty\<rparr>"

definition ex_manager :: SessionManager where
  "ex_manager = \<lparr>max_sessions = 1000, max_history = 2, session_ttl = 3600, context_window = 1,
     sessions = [(''s1'', ex_session)]\<rparr>"

section \<open>hashlib.md5\<close>

text \<open>
  \<open>hashlib.md5(data).hexdigest()\<close> belongs to the Python library; it is modelled after
  RFC 1321 so that cache keys can be computed. Bytes and 32-bit words are integers, with
  the reduction modulo \<open>2^32\<close> written out.
\<close>

unbundle bit_operations_syntax

text \<open>The constants \<open>floor (2^32 * abs (sin (i + 1)))\<close> and the rotation amounts.\<close>

definition md5_K :: "int list" where
  "md5_K =
     [3614090360, 3905402710, 606105819, 3250441966,
      4118548399, 1200080426, 2821735955, 4249261313,
      1770035416, 2336552879, 4294925233, 2304563134,
      1804603682, 4254626195, 2792965006, 1236535329,
      4129170786, 3225465664, 643717713, 3921069994,
      3593408605, 38016083, 3634488961, 3889429448,
      568446438, 3275163606, 4107603335, 1163531501,
      2850285829, 4243563512, 1735328473, 2368359562,
      4294588738, 2272392833, 1839030562, 4259657740,
      2763975236, 1272893353, 4139469664, 3200236656,
      681279174, 3936430074, 3572445317, 76029189,
      3654602809, 3873151461, 530742520, 3299628645,
      4096336452, 1126891415, 2878612391, 4237533241,
      1700485571, 2399980690, 4293915773, 2240044497,
      1873313359, 4264355552, 2734768916, 1309151649,
      4149444226, 3174756917, 718787259, 3951481745]"

definition md5_S :: "nat list" where
  "md5_S =
     [7, 12, 17, 22, 7, 12, 17, 22, 7, 12, 17, 22, 7, 12, 17, 22,
      5, 9, 14, 20, 5, 9, 14, 20, 5, 9, 14, 20, 5, 9, 14, 20,
      4, 11, 16, 23, 4, 11, 16, 23, 4, 11, 16, 23, 4, 11, 16, 23,
      6, 10, 15, 21, 6, 10, 15, 21, 6, 10, 15, 21, 6, 10, 15, 21]"

definition add32 :: "int \<Rightarrow> int \<Rightarrow> int" where
  "add32 x y = (x + y) mod 4294967296"

definition not32 :: "int \<Rightarrow> int" where
  "not32 x = 4294967295 - x"

definition rotl32 :: "int \<Rightarrow> nat \<Rightarrow> int" where
  "rotl32 x n = (x * 2 ^ n) mod 4294967296 + x div 2 ^ (32 - n)"

definition md5_F :: "nat \<Rightarrow> int \<Rightarrow> int \<Rightarrow> int \<Rightarrow> int" where
  "md5_F i b c d =
     (if i < 16 then (b AND c) OR (not32 b AND d)
      else if i < 32 then (d AND b) OR (not32 d AND c)
      else if i < 48 then b XOR c XOR d
      else c XOR (b OR not32 d))"

definition md5_g :: "nat \<Rightarrow> nat" where
  "md5_g i =
     (if i < 16 then i
      else if i < 32 then (5 * i + 1) mod 16
      else if i < 48 then (3 * i + 5) mod 16
      else (7 * i) mod 16)"

text \<open>One of the 64 steps on the state \<open>(A, B, C, D)\<close>; \<open>m\<close> holds the 16 words of the block.\<close>

fun md5_round :: "int list \<Rightarrow> nat \<Rightarrow> int \<times> int \<times> int \<times> int \<Rightarrow> int \<times> int \<times> int \<times> int" where
  "md5_round m i (a, b, c, d) =
     (d, add32 b (rotl32 (add32 (add32 (add32 (md5_F i b c d) a) (md5_K ! i)) (m ! md5_g i)) (md5_S ! i)), b, c)"

text \<open>Little-endian words and bytes.\<close>

fun le_word :: "int list \<Rightarrow> int" where
  "le_word [] = 0"
| "le_word (b # bs) = b + 256 * le_word bs"

fun words_of :: "nat \<Rightarrow> int list \<Rightarrow> int list" where
  "words_of 0 bs = []"
| "words_of (Suc n) bs = le_word (take 4 bs) # words_of n (drop 4 bs)"

fun add_state :: "int \<times> int \<times> int \<times> int \<Rightarrow> int \<times> int \<times> int \<times> int \<Rightarrow> int \<times> int \<times> int \<times> int" where
  "add_state (a0, b0, c0, d0) (a, b, c, d) = (add32 a0 a, add32 b0 b, add32 c0 c, add32 d0 d)"

definition md5_block :: "int list \<Rightarrow> int \<times> int \<times> int \<times> int \<Rightarrow> int \<times> int \<times> int \<times> int" where
  "md5_block block h = add_state h (fold (md5_round (words_of 16 block)) [0..<64] h)"

fun md5_blocks :: "nat \<Rightarrow> int list \<Rightarrow> int \<times> int \<times> int \<times> int \<Rightarrow> int \<times> int \<times> int \<times> int" where
  "md5_blocks 0 bs h = h"
| "md5_blocks (Suc n) bs h = md5_blocks n (drop 64 bs) (md5_block (take 64 bs) h)"

fun le_bytes :: "nat \<Rightarrow> int \<Rightarrow> int list" where
  "le_bytes 0 x = []"
| "le_bytes (Suc n) x = x mod 256 # le_bytes n (x div 256)"

text \<open>Padding: a 1 bit, zeros up to 56 modulo 64, the bit length in 8 bytes.\<close>

definition md5_pad :: "int list \<Rightarrow> int list" where
  "md5_pad bs =
     bs @ [128] @ replicate ((119 - length bs mod 64) mod 64) 0 @ le_bytes 8 (8 * int (length bs))"

definition hex_digit :: "int \<Rightarrow> char" where
  "hex_digit n = (if n < 10 then char_of (48 + n) else char_of (87 + n))"

definition hex_byte :: "int \<Rightarrow> string" where
  "hex_byte b = [hex_digit (b div 16), hex_digit (b mod 16)]"

fun state_hex :: "int \<times> int \<times> int \<times> int \<Rightarrow> string" where
  "state_hex (a, b, c, d) = concat (map hex_byte (le_bytes 4 a @ le_bytes 4 b @ le_bytes 4 c @ le_bytes 4 d))"

definition md5_hexdigest :: "string \<Rightarrow> string" where
  "md5_hexdigest s =
     state_hex (md5_blocks (length (md5_pad (map of_char s)) div 64) (md5_pad (map of_char s))
                  (1732584193, 4023233417, 2562383102, 271733878))"

section \<open>retrieval\_optimization.py\<close>

text \<open>
  \<open>Document\<close> objects are mutable and shared: the engines hand out references to the
  objects they hold, and \<open>_rrf_rerank\<close> writes into the metadata of the objects it
  receives. The model therefore keeps the objects in a store, \<open>heap\<close>, addressed by
  references; a list of documents is a list of references.
\<close>

type_synonym ref = nat

record Document =
  page_content :: string
  doc_metadata :: "string \<rightharpoonup> pyval"

type_synonym heap = "ref \<Rightarrow> Document"

text \<open>
  \<open>sorted(xs, key=key, reverse=True)\<close>: descending by key, and stable, that is, elements
  with equal keys keep the order they have in \<open>xs\<close>. This is the stable ascending sort by
  the negated key.
\<close>

definition py_sorted_reverse :: "('a \<Rightarrow> 'b::linordered_ab_group_add) \<Rightarrow> 'a list \<Rightarrow> 'a list" where
  "py_sorted_reverse key xs = sort_key (\<lambda>x. - key x) xs"

text \<open>
  The two scoring loops of \<open>_rrf_rerank\<close> have the same body:
  \<^verbatim>\<open>for rank, doc in enumerate(docs):
      doc_id = hash(doc.page_content)
      doc_obj[doc_id] = doc
      rrf_score = 1.0 / (k + rank + 1)
      doc_scores[doc_id] = doc_scores.get(doc_id, 0) + rrf_score\<close>
  Python's built-in \<open>hash\<close> is the parameter \<open>h\<close> (its values are the keys of the two
  dicts). The float scores are exact rationals here. The parameter \<open>k\<close> is a natural
  number: the only caller leaves it at its default 60, so \<open>k + rank + 1\<close> is never zero.
\<close>

fun rrf_accumulate ::
  "(string \<Rightarrow> 'h) \<Rightarrow> heap \<Rightarrow> nat \<Rightarrow> nat \<Rightarrow> ref list
     \<Rightarrow> ('h, rat) odict \<times> ('h, ref) odict \<Rightarrow> ('h, rat) odict \<times> ('h, ref) odict" where
  "rrf_accumulate h hp k rank [] (doc_scores, doc_obj) = (doc_scores, doc_obj)"
| "rrf_accumulate h hp k rank (doc # docs) (doc_scores, doc_obj) =
     (let doc_id = h (page_content (hp doc));
          doc_obj' = od_set doc_id doc doc_obj;
          rrf_score = 1 / of_nat (k + rank + 1);
          doc_scores' = od_set doc_id
                          ((case map_of doc_scores doc_id of None \<Rightarrow> 0 | Some s \<Rightarrow> s) + rrf_score)
                          doc_scores
      in rrf_accumulate h hp k (Suc rank) docs (doc_scores', doc_obj'))"

text \<open>\<open>doc_scores\<close> and \<open>doc_obj\<close> after the vector loop and then the BM25 loop.\<close>

definition rrf_tables ::
  "(string \<Rightarrow> 'h) \<Rightarrow> heap \<Rightarrow> ref list \<Rightarrow> ref list \<Rightarrow> nat \<Rightarrow> ('h, rat) odict \<times> ('h, ref) odict" where
  "rrf_tables h hp vector_docs bm25_docs k =
     rrf_accumulate h hp k 0 bm25_docs (rrf_accumulate h hp k 0 vector_docs ([], []))"

text \<open>\<open>doc.metadata['rrf_score'] = final_score\<close>, a write to the object behind \<open>doc\<close>.\<close>

definition set_rrf_score :: "heap \<Rightarrow> ref \<Rightarrow> rat \<Rightarrow> heap" where
  "set_rrf_score hp doc final_score =
     hp(doc := (hp doc)\<lparr>doc_metadata :=
                 (doc_metadata (hp doc))(''rrf_score'' \<mapsto> PyNum final_score)\<rparr>)"

text \<open>
  The last loop of \<open>_rrf_rerank\<close>:
  \<^verbatim>\<open>for doc_id, final_score in sorted_docs:
      if doc_id in doc_obj:
          doc = doc_obj[doc_id]
          doc.metadata['rrf_score'] = final_score
          reranked_docs.append(doc)\<close>
\<close>

fun rrf_collect :: "('h, ref) odict \<Rightarrow> ('h \<times> rat) list \<Rightarrow> heap \<Rightarrow> ref list \<times> heap" where
  "rrf_collect doc_obj [] hp = ([], hp)"
| "rrf_collect doc_obj ((doc_id, final_score) # rest) hp =
     (case map_of doc_obj doc_id of
        None \<Rightarrow> rrf_collect doc_obj rest hp
      | Some doc \<Rightarrow>
          (case rrf_collect doc_obj rest (set_rrf_score hp doc final_score) of
             (docs, hp') \<Rightarrow> (doc # docs, hp')))"

text \<open>\<open>RetrievalOptimizationModule._rrf_rerank\<close>: the reranked list and the store after it.\<close>

definition rrf_rerank ::
  "(string \<Rightarrow> 'h) \<Rightarrow> heap \<Rightarrow> ref list \<Rightarrow> ref list \<Rightarrow> nat \<Rightarrow> ref list \<times> heap" where
  "rrf_rerank h hp vector_docs bm25_docs k =
     (let (doc_scores, doc_obj) = rrf_tables h hp vector_docs bm25_docs k;
          sorted_docs = py_sorted_reverse snd doc_scores
      in rrf_collect doc_obj sorted_docs hp)"

text \<open>
  The two engines are outside the repository; the module holds them, and what they do
  for a query is their outcome: a list of documents or a raised exception.
  \<open>similarity_search\<close> is \<open>self.vectorstore.similarity_search(query, k=5)\<close>,
  \<open>get_relevant_documents\<close> the public BM25 method and
  \<open>private_get_relevant_documents\<close> the BM25 method \<open>_get_relevant_documents\<close>.
\<close>

record RetrievalOptimizationModule =
  similarity_search :: "string \<Rightarrow> py_error + ref list"
  get_relevant_documents :: "string \<Rightarrow> py_error + ref list"
  private_get_relevant_documents :: "string \<Rightarrow> py_error + ref list"
  chunks :: "ref list"

text \<open>
  The second \<open>try\<close> statement of \<open>hybrid_search\<close>. \<open>AttributeError\<close> from the public
  method is handled by calling the private one (an exception raised inside that handler
  is not caught by the sibling \<open>except TypeError\<close>); \<open>TypeError\<close> from the public
  method makes \<open>hybrid_search\<close> return the empty list, here \<open>Inr None\<close>; any other
  exception propagates.
\<close>

definition bm25_search :: "RetrievalOptimizationModule \<Rightarrow> string \<Rightarrow> py_error + ref list option" where
  "bm25_search m query =
     (case get_relevant_documents m query of
        Inr docs \<Rightarrow> Inr (Some docs)
      | Inl AttributeError \<Rightarrow>
          (case private_get_relevant_documents m query of
             Inr docs \<Rightarrow> Inr (Some docs)
           | Inl e \<Rightarrow> Inl e)
      | Inl TypeError \<Rightarrow> Inr None
      | Inl e \<Rightarrow> Inl e)"

text \<open>
  \<open>RetrievalOptimizationModule.hybrid_search\<close>. The first \<open>try\<close> catches every
  \<open>Exception\<close> of the vector search and returns the empty list.
\<close>

definition hybrid_search ::
  "(string \<Rightarrow> 'h) \<Rightarrow> RetrievalOptimizationModule \<Rightarrow> heap \<Rightarrow> string \<Rightarrow> int
     \<Rightarrow> (py_error + ref list) \<times> heap" where
  "hybrid_search h m hp query top_k =
     (case similarity_search m query of
        Inl e \<Rightarrow> (Inr [], hp)
      | Inr vector_docs \<Rightarrow>
          (case bm25_search m query of
             Inl e \<Rightarrow> (Inl e, hp)
           | Inr None \<Rightarrow> (Inr [], hp)
           | Inr (Some bm25_docs) \<Rightarrow>
               if vector_docs = [] \<and> bm25_docs = [] then (Inr [], hp)
               else
                 let (reranked_docs, hp') = rrf_rerank h hp vector_docs bm25_docs 60
                 in (Inr (py_slice_to reranked_docs top_k), hp')))"

subsection \<open>Notions used to state the results on fusion\<close>

text \<open>The fusion identity of a document: the hash of its content.\<close>

definition doc_id_of :: "(string \<Rightarrow> 'h) \<Rightarrow> heap \<Rightarrow> ref \<Rightarrow> 'h" where
  "doc_id_of h hp doc = h (page_content (hp doc))"

text \<open>The position of the first occurrence of \<open>x\<close> in a list.\<close>

fun first_index :: "'a list \<Rightarrow> 'a \<Rightarrow> nat" where
  "first_index [] x = 0"
| "first_index (y # ys) x = (if y = x then 0 else Suc (first_index ys x))"

text \<open>
  The Rank-Reciprocal-Fusion sum as the specification words it: the sum of \<open>1 / (k + rank)\<close>
  over the 1-based ranks at which the identity \<open>i\<close> occurs in one engine's list of
  identities (\<open>rank\<close> counts the elements already passed).
\<close>

fun rrf_terms :: "nat \<Rightarrow> nat \<Rightarrow> 'h \<Rightarrow> 'h list \<Rightarrow> rat" where
  "rrf_terms k rank i [] = 0"
| "rrf_terms k rank i (x # xs) =
     (if x = i then 1 / of_nat (k + rank + 1) else 0) + rrf_terms k (Suc rank) i xs"

definition fused_score :: "(string \<Rightarrow> 'h) \<Rightarrow> heap \<Rightarrow> nat \<Rightarrow> ref list \<Rightarrow> ref list \<Rightarrow> 'h \<Rightarrow> rat" where
  "fused_score h hp k vector_docs bm25_docs i =
     rrf_terms k 0 i (map (doc_id_of h hp) vector_docs) + rrf_terms k 0 i (map (doc_id_of h hp) bm25_docs)"

text \<open>The keys of a dict after one more insertion: a new key goes last.\<close>

fun first_seen :: "'h \<Rightarrow> 'h list \<Rightarrow> 'h list" where
  "first_seen i K = (if i \<in> set K then K else K @ [i])"

definition score_of :: "('h, rat) odict \<Rightarrow> 'h \<Rightarrow> rat" where
  "score_of ds i = (case map_of ds i of None \<Rightarrow> 0 | Some s \<Rightarrow> s)"

text \<open>The identities in scanning order: the vector list, then the BM25 list.\<close>

definition seen_ids :: "(string \<Rightarrow> 'h) \<Rightarrow> heap \<Rightarrow> ref list \<Rightarrow> ref list \<Rightarrow> 'h list" where
  "seen_ids h hp vector_docs bm25_docs = map (doc_id_of h hp) (vector_docs @ bm25_docs)"

text \<open>The sorted score table inside \<open>rrf_rerank\<close>.\<close>

definition sorted_docs :: "(string \<Rightarrow> 'h) \<Rightarrow> heap \<Rightarrow> ref list \<Rightarrow> ref list \<Rightarrow> nat \<Rightarrow> ('h \<times> rat) list" where
  "sorted_docs h hp vs bs k = py_sorted_reverse snd (fst (rrf_tables h hp vs bs k))"

subsection \<open>A small store and engines with fixed outcomes\<close>

text \<open>
  In the examples the hash is the identity on contents (no collisions); documents 0 and 2
  have the same content.
\<close>

definition content_hash :: "string \<Rightarrow> string" where
  "content_hash s = s"

definition ex_heap :: heap where
  "ex_heap r = \<lparr>page_content = (if r = 0 then ''a'' else if r = 1 then ''b''
                                else if r = 2 then ''a'' else ''c''),
               doc_metadata = Map.empty\<rparr>"

definition ex_module :: "py_error + ref list \<Rightarrow> py_error + ref list \<Rightarrow> RetrievalOptimizationModule" where
  "ex_module v b = \<lparr>similarity_search = (\<lambda>query. v), get_relevant_documents = (\<lambda>query. b),
                    private_get_relevant_documents = (\<lambda>query. b), chunks = [0, 1, 2, 3]\<rparr>"

section \<open>cache\_manager.py\<close>

record CacheEntry =
  query :: string
  answer :: string
  entry_created_at :: time
  hit_count :: int
  entry_metadata :: "string \<rightharpoonup> pyval"

text \<open>The dict \<open>_stats\<close> has four fixed keys.\<close>

record CacheStats =
  hits :: int
  misses :: int
  sets :: int
  evictions :: int

record CacheManager =
  max_size :: int
  ttl :: int
  enable_semantic :: bool
  cache :: "(string, CacheEntry) odict"
  stats :: CacheStats

text \<open>\<open>CacheManager.__init__\<close>.\<close>

definition new_cache_manager :: "int \<Rightarrow> int \<Rightarrow> bool \<Rightarrow> CacheManager" where
  "new_cache_manager ms t sem =
     \<lparr>max_size = ms, ttl = t, enable_semantic = sem, cache = [],
      stats = \<lparr>hits = 0, misses = 0, sets = 0, evictions = 0\<rparr>\<rparr>"

subsection \<open>Key normalisation\<close>

text \<open>
  \<open>str.lower\<close>, \<open>str.strip\<close> and \<open>str.split\<close> without arguments, on the ASCII range:
  the letters \<open>A\<close> to \<open>Z\<close> are lowered, and the white space characters are the code
  points 9 to 13 and 28 to 32. Bytes from 128 on (the UTF-8 encoding of non-ASCII text)
  are left as they are and are not white space, which is what Python does for text
  whose non-ASCII characters are caseless and not spaces, such as CJK ideographs and CJK
  punctuation.
\<close>

definition py_isspace :: "char \<Rightarrow> bool" where
  "py_isspace c \<longleftrightarrow> (9 \<le> (of_char c :: nat) \<and> (of_char c :: nat) \<le> 13)
                     \<or> (28 \<le> (of_char c :: nat) \<and> (of_char c :: nat) \<le> 32)"

definition py_lower_char :: "char \<Rightarrow> char" where
  "py_lower_char c =
     (if 65 \<le> (of_char c :: nat) \<and> (of_char c :: nat) \<le> 90
      then char_of ((of_char c :: nat) + 32) else c)"

definition py_lower :: "string \<Rightarrow> string" where
  "py_lower s = map py_lower_char s"

definition py_strip :: "string \<Rightarrow> string" where
  "py_strip s = rev (dropWhile py_isspace (rev (dropWhile py_isspace s)))"

text \<open>\<open>s.split()\<close>: the maximal runs of non-space characters; \<open>w\<close> is the run being read.\<close>

fun split_acc :: "string \<Rightarrow> string \<Rightarrow> string list" where
  "split_acc w [] = (if w = [] then [] else [w])"
| "split_acc w (c # cs) =
     (if py_isspace c then (if w = [] then split_acc [] cs else w # split_acc [] cs)
      else split_acc (w @ [c]) cs)"

definition py_split :: "string \<Rightarrow> string list" where
  "py_split s = split_acc [] s"

text \<open>\<open>" ".join(query.lower().strip().split())\<close>\<close>

definition normalized :: "string \<Rightarrow> string" where
  "normalized q = py_join '' '' (py_split (py_strip (py_lower q)))"

text \<open>
  \<open>CacheManager._generate_key\<close>. The parameter \<open>md5\<close> is
  \<open>hashlib.md5(...).hexdigest()\<close> on the UTF-8 bytes of its argument.
\<close>

definition generate_key :: "(string \<Rightarrow> string) \<Rightarrow> string \<Rightarrow> string \<Rightarrow> string" where
  "generate_key md5 sid q = sid @ '':'' @ md5 (normalized q)"

definition is_expired :: "CacheManager \<Rightarrow> CacheEntry \<Rightarrow> time \<Rightarrow> bool" where
  "is_expired cm entry now \<longleftrightarrow> now - entry_created_at entry > of_int (ttl cm)"

subsection \<open>get and set\<close>

text \<open>\<open>CacheManager.get\<close>; \<open>now\<close> is the clock read of \<open>_is_expired\<close>.\<close>

definition cache_get ::
  "(string \<Rightarrow> string) \<Rightarrow> CacheManager \<Rightarrow> string \<Rightarrow> string \<Rightarrow> time \<Rightarrow> string option \<times> CacheManager" where
  "cache_get md5 cm sid q now =
     (let key = generate_key md5 sid q in
      case map_of (cache cm) key of
        None \<Rightarrow> (None, cm\<lparr>stats := (stats cm)\<lparr>misses := misses (stats cm) + 1\<rparr>\<rparr>)
      | Some entry \<Rightarrow>
          if is_expired cm entry now
          then (None, cm\<lparr>cache := od_del key (cache cm),
                          stats := (stats cm)\<lparr>misses := misses (stats cm) + 1,
                                              evictions := evictions (stats cm) + 1\<rparr>\<rparr>)
          else (Some (answer entry),
                cm\<lparr>cache := od_set key (entry\<lparr>hit_count := hit_count entry + 1\<rparr>)
                                 (od_move_to_end key (cache cm)),
                   stats := (stats cm)\<lparr>hits := hits (stats cm) + 1\<rparr>\<rparr>))"

text \<open>
  The eviction loop of \<open>set\<close>:
  \<^verbatim>\<open>while len(self._cache) > self.max_size:
      self._cache.popitem(last=False)
      self._stats["evictions"] += 1\<close>
  \<open>popitem\<close> on an empty \<open>OrderedDict\<close> raises \<open>KeyError\<close>. The result is the error, if
  any, the table and the eviction counter as the loop left them.
\<close>

fun lru_evict ::
  "int \<Rightarrow> (string, CacheEntry) odict \<Rightarrow> int \<Rightarrow> py_error option \<times> (string, CacheEntry) odict \<times> int" where
  "lru_evict ms [] ev = (if 0 > ms then (Some KeyError, [], ev) else (None, [], ev))"
| "lru_evict ms (p # ps) ev =
     (if int (length (p # ps)) > ms then lru_evict ms ps (ev + 1) else (None, p # ps, ev))"

text \<open>The table of \<open>set\<close> after the entry is stored and before the eviction loop runs.\<close>

definition cache_inserted ::
  "(string \<Rightarrow> string) \<Rightarrow> CacheManager \<Rightarrow> string \<Rightarrow> string \<Rightarrow> string \<Rightarrow> (string \<rightharpoonup> pyval) option
     \<Rightarrow> time \<Rightarrow> (string, CacheEntry) odict" where
  "cache_inserted md5 cm sid q a md now =
     (let key = generate_key md5 sid q;
          c1 = (if map_of (cache cm) key \<noteq> None then od_del key (cache cm) else cache cm)
      in od_set key \<lparr>query = q, answer = a, entry_created_at = now, hit_count = 0,
                      entry_metadata = (case md of None \<Rightarrow> Map.empty | Some m \<Rightarrow> m)\<rparr> c1)"

text \<open>\<open>CacheManager.set\<close>; \<open>now\<close> is the clock read for \<open>created_at\<close>.\<close>

definition cache_set ::
  "(string \<Rightarrow> string) \<Rightarrow> CacheManager \<Rightarrow> string \<Rightarrow> string \<Rightarrow> string \<Rightarrow> (string \<rightharpoonup> pyval) option
     \<Rightarrow> time \<Rightarrow> (py_error + string) \<times> CacheManager" where
  "cache_set md5 cm sid q a md now =
     (let key = generate_key md5 sid q;
          c2 = cache_inserted md5 cm sid q a md now
      in case lru_evict (max_size cm) c2 (evictions (stats cm)) of
           (err, c3, ev) \<Rightarrow>
             let cm' = cm\<lparr>cache := c3,
                          stats := (stats cm)\<lparr>sets := sets (stats cm) + 1, evictions := ev\<rparr>\<rparr>
             in (case err of Some e \<Rightarrow> (Inl e, cm') | None \<Rightarrow> (Inr key, cm')))"

subsection \<open>Sequences of operations, with their recency\<close>

datatype cache_op =
    Get string string time
  | Set string string string "(string \<rightharpoonup> pyval) option" time

text \<open>
  The key whose use an operation counts as: the key of a \<open>set\<close>, and the key of a \<open>get\<close>
  that hits. A \<open>get\<close> that misses, or finds its entry expired, uses no entry.
\<close>

fun used_key :: "(string \<Rightarrow> string) \<Rightarrow> CacheManager \<Rightarrow> cache_op \<Rightarrow> string option" where
  "used_key md5 cm (Set sid q a md now) = Some (generate_key md5 sid q)"
| "used_key md5 cm (Get sid q now) =
     (case map_of (cache cm) (generate_key md5 sid q) of
        None \<Rightarrow> None
      | Some entry \<Rightarrow> if is_expired cm entry now then None else Some (generate_key md5 sid q))"

fun cache_step :: "(string \<Rightarrow> string) \<Rightarrow> CacheManager \<Rightarrow> cache_op \<Rightarrow> py_error option \<times> CacheManager" where
  "cache_step md5 cm (Get sid q now) = (None, snd (cache_get md5 cm sid q now))"
| "cache_step md5 cm (Set sid q a md now) =
     (case cache_set md5 cm sid q a md now of
        (Inl e, cm') \<Rightarrow> (Some e, cm')
      | (Inr key, cm') \<Rightarrow> (None, cm'))"

text \<open>
  A run of operations. Beside the cache it keeps a count of the operations done and, for
  every key, the number of the last operation that used it: this record is not part of
  the program, it is what "least recently used" is measured against. A call that raises
  ends the run.
\<close>

type_synonym cache_trace = "CacheManager \<times> nat \<times> (string \<Rightarrow> nat)"

fun cache_run :: "(string \<Rightarrow> string) \<Rightarrow> cache_trace \<Rightarrow> cache_op list \<Rightarrow> py_error option \<times> cache_trace" where
  "cache_run md5 (cm, tick, last_use) [] = (None, (cm, tick, last_use))"
| "cache_run md5 (cm, tick, last_use) (op # ops) =
     (let last_use' = (case used_key md5 cm op of None \<Rightarrow> last_use | Some k \<Rightarrow> last_use(k := tick))
      in case cache_step md5 cm op of
           (Some e, cm') \<Rightarrow> (Some e, (cm', Suc tick, last_use'))
         | (None, cm') \<Rightarrow> cache_run md5 (cm', Suc tick, last_use') ops)"

text \<open>
  What holds of every reachable trace: the keys of the table are distinct and stand in
  the order of their last use, oldest first; every last use lies in the past; the table
  is within its capacity.
\<close>

fun lru_inv :: "cache_trace \<Rightarrow> bool" where
  "lru_inv (cm, tick, last_use) \<longleftrightarrow>
     distinct (map fst (cache cm))
     \<and> sorted_wrt (\<lambda>a b. last_use a < last_use b) (map fst (cache cm))
     \<and> list_all (\<lambda>k. last_use k < tick) (map fst (cache cm))
     \<and> int (length (cache cm)) \<le> max_size cm"

definition recency_ok :: "nat \<Rightarrow> (string \<Rightarrow> nat) \<Rightarrow> string list \<Rightarrow> bool" where
  "recency_ok tick lu K \<longleftrightarrow>
     distinct K \<and> sorted_wrt (\<lambda>a b. lu a < lu b) K \<and> list_all (\<lambda>k. lu k < tick) K"

text \<open>The operations of the module's own demonstration, on a cache of capacity 2.\<close>

definition ex_ops :: "cache_op list" where
  "ex_ops = [Set ''s1'' ''q1'' ''a1'' None 0, Set ''s1'' ''q2'' ''a2'' None 1,
             Get ''s1'' ''q1'' 2, Set ''s1'' ''q3'' ''a3'' None 3]"

section \<open>data\_preparation.py\<close>

text \<open>
  Of \<open>DataPreparationModule\<close>, \<open>get_parent_documents\<close> reads only \<open>self.documents\<close>. It
  changes no document, so documents are values here.
\<close>

record DataPreparationModule =
  data_path :: string
  documents :: "Document list"
  prepared_chunks :: "Document list"
  child_to_parent :: "string \<rightharpoonup> string"

text \<open>\<open>doc.metadata.get("parent_id")\<close>: \<open>None\<close> when the key is missing or holds \<open>None\<close>.\<close>

definition parent_id_of :: "Document \<Rightarrow> pyval option" where
  "parent_id_of d = (case doc_metadata d ''parent_id'' of Some PyNone \<Rightarrow> None | x \<Rightarrow> x)"

text \<open>
  The body of the first loop:
  \<^verbatim>\<open>parent_id = chunk.metadata.get("parent_id")
  if parent_id:
      parent_relevance[parent_id] = parent_relevance.get(parent_id, 0) + 1
      if parent_id not in parent_doc_map:
          for doc in self.documents:
              if doc.metadata.get("parent_id") == parent_id:
                  parent_doc_map[parent_id] = doc
                  break\<close>
\<close>

definition parent_step ::
  "Document list \<Rightarrow> Document \<Rightarrow> (pyval, int) odict \<times> (pyval, Document) odict
     \<Rightarrow> (pyval, int) odict \<times> (pyval, Document) odict" where
  "parent_step docs chunk acc =
     (case acc of (parent_relevance, parent_doc_map) \<Rightarrow>
        (case parent_id_of chunk of
           None \<Rightarrow> (parent_relevance, parent_doc_map)
         | Some parent_id \<Rightarrow>
             if py_truthy parent_id then
               (od_set parent_id
                  ((case map_of parent_relevance parent_id of None \<Rightarrow> 0 | Some n \<Rightarrow> n) + 1)
                  parent_relevance,
                if map_of parent_doc_map parent_id = None
                then (case find (\<lambda>doc. parent_id_of doc = Some parent_id) docs of
                        None \<Rightarrow> parent_doc_map
                      | Some doc \<Rightarrow> od_set parent_id doc parent_doc_map)
                else parent_doc_map)
             else (parent_relevance, parent_doc_map)))"

text \<open>
  \<open>DataPreparationModule.get_parent_documents\<close>: the loop over the chunks, the stable
  descending sort of the keys by their count, and the collection of the documents found.
  The closing loop only builds a log message.
\<close>

definition get_parent_documents :: "DataPreparationModule \<Rightarrow> Document list \<Rightarrow> Document list" where
  "get_parent_documents m child_chunks =
     (case fold (parent_step (documents m)) child_chunks ([], []) of
        (parent_relevance, parent_doc_map) \<Rightarrow>
          let sorted_parent_ids =
                py_sorted_reverse (\<lambda>x. case map_of parent_relevance x of None \<Rightarrow> 0 | Some n \<Rightarrow> n)
                  (map fst parent_relevance)
          in List.map_filter (map_of parent_doc_map) sorted_parent_ids)"

subsection \<open>Notions used to state the result on parent resolution\<close>

text \<open>
  A usable parent id is one that passes \<open>if parent_id:\<close>. The relevance of an id is the
  number of input fragments that carry it. The loaded document of an id is the first
  document of \<open>self.documents\<close> that carries it.
\<close>

definition usable_parent_id :: "pyval option \<Rightarrow> bool" where
  "usable_parent_id x = (case x of None \<Rightarrow> False | Some v \<Rightarrow> py_truthy v)"

definition relevance :: "Document list \<Rightarrow> pyval option \<Rightarrow> int" where
  "relevance child_chunks x = int (length (filter (\<lambda>c. parent_id_of c = x) child_chunks))"

definition loaded_document :: "Document list \<Rightarrow> pyval option \<Rightarrow> Document option" where
  "loaded_document docs x = find (\<lambda>doc. parent_id_of doc = x) docs"

text \<open>
  What holds of the two dicts after the first loop has read the fragments \<open>P\<close>: the keys
  are the usable parent ids met, in the order of their first fragment; each count is the
  relevance; each found document is the loaded document of its id.
\<close>

definition parent_inv ::
  "Document list \<Rightarrow> Document list \<Rightarrow> (pyval, int) odict \<times> (pyval, Document) odict \<Rightarrow> bool" where
  "parent_inv docs P acc \<longleftrightarrow>
     distinct (map fst (fst acc))
     \<and> (\<forall>pid. map_of (fst acc) pid =
            (if py_truthy pid \<and> Some pid \<in> set (map parent_id_of P)
             then Some (relevance P (Some pid)) else None))
     \<and> sorted_wrt (\<lambda>a b. first_index (map parent_id_of P) (Some a)
                           < first_index (map parent_id_of P) (Some b)) (map fst (fst acc))
     \<and> (\<forall>pid. map_of (snd acc) pid =
            (if py_truthy pid \<and> Some pid \<in> set (map parent_id_of P)
             then loaded_document docs (Some pid) else None))"

text \<open>Fragments and documents for the examples.\<close>

definition ex_doc :: "string \<Rightarrow> string \<Rightarrow> Document" where
  "ex_doc text pid = \<lparr>page_content = text, doc_metadata = [''parent_id'' \<mapsto> PyStr pid]\<rparr>"

definition ex_prep :: DataPreparationModule where
  "ex_prep = \<lparr>data_path = ''data/cook'',
              documents = [ex_doc ''recipe one'' ''P1'', ex_doc ''recipe two'' ''P2''],
              prepared_chunks = [], child_to_parent = Map.empty\<rparr>"

section \<open>Session store: results\<close>

lemma get_session_live:
  "live_session sm sid now s \<Longrightarrow>
     get_session sm sid now = (Some s, sm\<lparr>sessions := od_move_to_end sid (sessions sm)\<rparr>)"
  by (simp add: live_session_def get_session_def)

text \<open>
  Claim C10. For a live session, \<open>get_messages\<close> with \<open>limit = 0\<close> returns every message of
  the session, exactly as \<open>limit = None\<close> does: the limit is applied only when it is
  non-zero.
\<close>

theorem C10_get_messages_limit_zero:
  assumes "live_session sm sid now s"
  shows "fst (get_messages sm sid (Some 0) now) = map message_dict (messages s)
       \<and> get_messages sm sid (Some 0) now = get_messages sm sid None now"
  using assms by (simp add: get_messages_def get_session_live)

theorem C10_get_messages_limit_zero_witness:
  "live_session ex_manager ''s1'' 10 ex_session \<and>
   fst (get_messages ex_manager ''s1'' (Some 0) 10)
     = [[(''role'', ''user''), (''content'', ''A'')],
        [(''role'', ''assistant''), (''content'', ''B'')],
        [(''role'', ''user''), (''content'', ''C'')]] \<and>
   get_messages ex_manager ''s1'' (Some 0) 10 = get_messages ex_manager ''s1'' None 10"
proof -
  have h1: "live_session ex_manager ''s1'' 10 ex_session"
    by (simp add: live_session_def ex_manager_def ex_session_def)
  have h2: "map message_dict (messages ex_session)
     = [[(''role'', ''user''), (''content'', ''A'')],
        [(''role'', ''assistant''), (''content'', ''B'')],
        [(''role'', ''user''), (''content'', ''C'')]]"
    by (simp add: ex_session_def ex_message_def message_dict_def)
  show ?thesis using h1 h2 C10_get_messages_limit_zero[OF h1] by auto
qed



lemma trim_history_ok:
  "1 \<le> mh \<Longrightarrow>
     fst (trim_history mh ms) = None \<and>
     int (length (snd (trim_history mh ms))) \<le> 2 * mh \<and>
     (\<exists>n. snd (trim_history mh ms) = drop (2 * n) ms \<and>
          (\<forall>j<n. int (length (drop (2 * j) ms)) > 2 * mh))"
proof (induction mh ms rule: trim_history.induct)
  case (1 mh)
  then show ?case by (auto intro!: exI[of _ 0])
next
  case (2 mh m)
  then show ?case by (auto intro!: exI[of _ 0])
next
  case (3 mh m1 m2 ms)
  show ?case
  proof (cases "int (length (m1 # m2 # ms)) > mh * 2")
    case True
    from 3 True obtain n where n: "snd (trim_history mh ms) = drop (2 * n) ms"
      "\<forall>j<n. int (length (drop (2 * j) ms)) > 2 * mh"
      and b: "fst (trim_history mh ms) = None" "int (length (snd (trim_history mh ms))) \<le> 2 * mh"
      by auto
    have "snd (trim_history mh (m1 # m2 # ms)) = drop (2 * Suc n) (m1 # m2 # ms)"
      using True n(1) by simp
    moreover have "\<forall>j<Suc n. int (length (drop (2 * j) (m1 # m2 # ms))) > 2 * mh"
    proof (intro allI impI)
      fix j assume "j < Suc n"
      show "int (length (drop (2 * j) (m1 # m2 # ms))) > 2 * mh"
      proof (cases j)
        case 0
        then show ?thesis using True by simp
      next
        case (Suc j')
        then have "j' < n" using \<open>j < Suc n\<close> by simp
        then show ?thesis using n(2) Suc by simp
      qed
    qed
    ultimately show ?thesis using True b by (metis trim_history.simps(3))
  next
    case False
    then have "snd (trim_history mh (m1 # m2 # ms)) = drop (2 * 0) (m1 # m2 # ms)" by simp
    then show ?thesis using False by (intro conjI exI[of _ 0]) auto
  qed
qed

lemma set_od_set: "set (od_set k v d) \<subseteq> insert (k, v) (set d)"
  by (induction d) auto

lemma set_od_del: "set (od_del k d) \<subseteq> set d"
  by (auto simp: od_del_def)

lemma set_od_move_to_end: "set (od_move_to_end k d) \<subseteq> set d"
  by (auto simp: od_move_to_end_def od_del_def split: option.splits dest: map_of_SomeD)

lemma get_session_frame:
  assumes "get_session sm sid now = (r, sm1)"
  shows "max_history sm1 = max_history sm \<and> set (sessions sm1) \<subseteq> set (sessions sm)"
  using assms set_od_del[of sid "sessions sm"] set_od_move_to_end[of sid "sessions sm"]
  by (auto simp: get_session_def split: option.splits if_splits)

lemma get_session_Some:
  assumes "get_session sm sid now = (Some s, sm1)"
  shows "(sid, s) \<in> set (sessions sm)"
  using assms by (auto simp: get_session_def split: option.splits if_splits dest: map_of_SomeD)

lemma add_message_bounded:
  assumes mh: "1 \<le> max_history sm" and inv: "history_bounded sm"
    and am: "add_message sm sid r c md t_get t_msg t_upd = (res, sm')"
  shows "(\<exists>ok. res = Inr ok) \<and> max_history sm' = max_history sm \<and> history_bounded sm'"
proof (cases "get_session sm sid t_get")
  case (Pair so sm1)
  note fr = get_session_frame[OF Pair]
  show ?thesis
  proof (cases so)
    case None
    with Pair am have "res = Inr False" "sm' = sm1" by (auto simp: add_message_def)
    with fr inv show ?thesis by (auto simp: history_bounded_def list_all_iff)
  next
    case (Some s)
    define message where "message = \<lparr>role = r, content = c, timestamp = t_msg,
                         metadata = (case md of None \<Rightarrow> Map.empty | Some m \<Rightarrow> m)\<rparr>"
    define tr where "tr = trim_history (max_history sm1) (messages s @ [message])"
    define s' where "s' = s\<lparr>messages := snd tr, updated_at := t_upd\<rparr>"
    have mh1: "1 \<le> max_history sm1" using fr mh by simp
    have tr_ok: "fst tr = None" "int (length (snd tr)) \<le> 2 * max_history sm1"
      using trim_history_ok[OF mh1, of "messages s @ [message]"] by (simp_all add: tr_def)
    have res: "res = Inr True" and sm': "sm' = sm1\<lparr>sessions := od_set sid s' (sessions sm1)\<rparr>"
      using am Pair Some tr_ok(1)
      by (auto simp: add_message_def Let_def message_def tr_def s'_def split: prod.splits option.splits)
    have "set (sessions sm') \<subseteq> insert (sid, s') (set (sessions sm))"
      using set_od_set[of sid s' "sessions sm1"] fr sm' by auto
    moreover have "int (length (messages s')) \<le> 2 * max_history sm"
      using tr_ok(2) fr by (simp add: s'_def)
    moreover have "max_history sm' = max_history sm" using sm' fr by simp
    ultimately show ?thesis using inv res by (auto simp: history_bounded_def list_all_iff)
  qed
qed

lemma add_messages_bounded:
  "1 \<le> max_history sm \<Longrightarrow> history_bounded sm \<Longrightarrow> add_messages sm calls = (err, sm') \<Longrightarrow>
     err = None \<and> max_history sm' = max_history sm \<and> history_bounded sm'"
proof (induction calls arbitrary: sm)
  case Nil
  then show ?case by simp
next
  case (Cons call calls)
  obtain sid r c md t_get t_msg t_upd where call: "call = (sid, r, c, md, t_get, t_msg, t_upd)"
    by (cases call) auto
  obtain res sm1 where am: "add_message sm sid r c md t_get t_msg t_upd = (res, sm1)"
    by (cases "add_message sm sid r c md t_get t_msg t_upd") auto
  from add_message_bounded[OF Cons.prems(1,2) am]
  obtain ok where ok: "res = Inr ok" "max_history sm1 = max_history sm" "history_bounded sm1" by auto
  have "add_messages sm1 calls = (err, sm')"
    using Cons.prems(3) call am ok(1) by simp
  from Cons.IH[OF _ ok(3) this] ok(2) Cons.prems(1) show ?case by simp
qed

text \<open>
  Claim C4. With \<open>max_history \<ge> 1\<close>, any sequence of \<open>add_message\<close> calls on a table
  whose sessions are within the bound completes without raising and leaves every session
  with at most \<open>2 * max_history\<close> messages; the trimming loop removes head pairs, that is,
  it returns the list without its first \<open>2 * n\<close> messages for the least \<open>n\<close> that meets
  the bound.
\<close>

theorem C4_add_message_history_bound:
  assumes "1 \<le> max_history sm" and "history_bounded sm"
    and "add_messages sm calls = (err, sm')"
  shows "err = None \<and> history_bounded sm' \<and>
         (\<forall>ms. \<exists>n. trim_history (max_history sm) ms = (None, drop (2 * n) ms) \<and>
                  int (length (drop (2 * n) ms)) \<le> 2 * max_history sm \<and>
                  (\<forall>j<n. int (length (drop (2 * j) ms)) > 2 * max_history sm))"
proof -
  have "\<exists>n. trim_history (max_history sm) ms = (None, drop (2 * n) ms) \<and>
                  int (length (drop (2 * n) ms)) \<le> 2 * max_history sm \<and>
                  (\<forall>j<n. int (length (drop (2 * j) ms)) > 2 * max_history sm)" for ms
    using trim_history_ok[OF assms(1), of ms]
    by (metis prod.collapse)
  then show ?thesis using add_messages_bounded[OF assms] by blast
qed

theorem C4_add_message_history_bound_witness:
  "1 \<le> max_history ex_manager \<and> history_bounded ex_manager \<and>
   fst (add_messages ex_manager
          [(''s1'', ''assistant'', ''D'', None, 1, 1, 1), (''s1'', ''user'', ''E'', None, 2, 2, 2)]) = None \<and>
   history_bounded (snd (add_messages ex_manager
          [(''s1'', ''assistant'', ''D'', None, 1, 1, 1), (''s1'', ''user'', ''E'', None, 2, 2, 2)])) \<and>
   map content (messages (snd (hd (sessions (snd (add_messages ex_manager
          [(''s1'', ''assistant'', ''D'', None, 1, 1, 1), (''s1'', ''user'', ''E'', None, 2, 2, 2)]))))))
     = [''C'', ''D'', ''E'']"
proof -
  have h1: "1 \<le> max_history ex_manager" by (simp add: ex_manager_def)
  have h2: "history_bounded ex_manager"
    by (simp add: history_bounded_def ex_manager_def ex_session_def)
  have h3: "add_messages ex_manager
          [(''s1'', ''assistant'', ''D'', None, 1, 1, 1), (''s1'', ''user'', ''E'', None, 2, 2, 2)]
       = (fst (add_messages ex_manager
          [(''s1'', ''assistant'', ''D'', None, 1, 1, 1), (''s1'', ''user'', ''E'', None, 2, 2, 2)]),
          snd (add_messages ex_manager
          [(''s1'', ''assistant'', ''D'', None, 1, 1, 1), (''s1'', ''user'', ''E'', None, 2, 2, 2)]))"
    by simp
  have h4: "map content (messages (snd (hd (sessions (snd (add_messages ex_manager
          [(''s1'', ''assistant'', ''D'', None, 1, 1, 1), (''s1'', ''user'', ''E'', None, 2, 2, 2)]))))))
     = [''C'', ''D'', ''E'']"
    by (simp add: ex_manager_def ex_session_def ex_message_def add_message_def get_session_def
        od_move_to_end_def od_del_def Let_def)
  show ?thesis using h1 h2 h4 C4_add_message_history_bound[OF h1 h2 h3] by blast
qed

section \<open>Hybrid retrieval: results\<close>

subsection \<open>Ordered dictionaries\<close>

lemma keys_od_set: "map fst (od_set k v d) = first_seen k (map fst d)"
  by (induction d) auto

lemma map_of_od_set: "map_of (od_set k v d) = (map_of d)(k \<mapsto> v)"
  by (induction d) (auto simp: fun_eq_iff)

lemma distinct_first_seen: "distinct K \<Longrightarrow> distinct (first_seen i K)"
  by simp

lemma set_fold_first_seen: "set (fold first_seen L K) = set L \<union> set K"
  by (induction L arbitrary: K) auto

lemma distinct_fold_first_seen: "distinct K \<Longrightarrow> distinct (fold first_seen L K)"
  by (induction L arbitrary: K) auto

subsection \<open>Stable sorting\<close>

lemma sorted_wrt_insort_key_stable:
  assumes "sorted (map f ys)"
    and "sorted_wrt (\<lambda>a b. f a < f b \<or> (f a = f b \<and> S a b)) ys"
    and "\<forall>y\<in>set ys. S x y"
  shows "sorted_wrt (\<lambda>a b. f a < f b \<or> (f a = f b \<and> S a b)) (insort_key f x ys)"
  using assms
proof (induction ys)
  case Nil
  then show ?case by simp
next
  case (Cons y ys)
  show ?case
  proof (cases "f x \<le> f y")
    case True
    have "\<forall>z\<in>set (y # ys). f x \<le> f z" using True Cons.prems(1) by auto
    then have "\<forall>z\<in>set (y # ys). f x < f z \<or> (f x = f z \<and> S x z)"
      using Cons.prems(3) by (auto simp: le_less)
    then show ?thesis using True Cons.prems(2) by simp
  next
    case False
    have tail: "sorted_wrt (\<lambda>a b. f a < f b \<or> (f a = f b \<and> S a b)) (insort_key f x ys)"
      using Cons by simp
    have "\<forall>z\<in>set (insort_key f x ys). f y < f z \<or> (f y = f z \<and> S y z)"
      using False Cons.prems(2) by (auto simp: set_insort_key)
    then show ?thesis using False tail by simp
  qed
qed

lemma sorted_wrt_sort_key_stable:
  "sorted_wrt S xs \<Longrightarrow> sorted_wrt (\<lambda>a b. f a < f b \<or> (f a = f b \<and> S a b)) (sort_key f xs)"
proof (induction xs)
  case Nil
  then show ?case by simp
next
  case (Cons x xs)
  have "\<forall>y\<in>set (sort_key f xs). S x y" using Cons.prems by simp
  then show ?case
    using Cons sorted_wrt_insort_key_stable[of f "sort_key f xs" S x] by simp
qed

lemma py_sorted_reverse_stable:
  "sorted_wrt S xs \<Longrightarrow>
     sorted_wrt (\<lambda>a b. key a > key b \<or> (key a = key b \<and> S a b)) (py_sorted_reverse key xs)"
proof -
  assume "sorted_wrt S xs"
  from sorted_wrt_sort_key_stable[OF this, of "\<lambda>x. - key x"]
  have "sorted_wrt (\<lambda>a b. - key a < - key b \<or> (- key a = - key b \<and> S a b))
          (py_sorted_reverse key xs)"
    unfolding py_sorted_reverse_def .
  moreover have "(\<lambda>a b. - key a < - key b \<or> (- key a = - key b \<and> S a b))
     = (\<lambda>a b. key a > key b \<or> (key a = key b \<and> S a b))"
    by (intro ext) (simp only: neg_less_iff_less neg_equal_iff_equal)
  ultimately show ?thesis by simp
qed

lemma set_py_sorted_reverse: "set (py_sorted_reverse key xs) = set xs"
  by (simp add: py_sorted_reverse_def)

lemma mset_py_sorted_reverse: "mset (py_sorted_reverse key xs) = mset xs"
  by (simp add: py_sorted_reverse_def)

lemma distinct_py_sorted_reverse: "distinct (map g (py_sorted_reverse key xs)) = distinct (map g xs)"
proof -
  have "mset (map g (py_sorted_reverse key xs)) = mset (map g xs)"
    by (simp add: mset_py_sorted_reverse)
  then show ?thesis by (rule mset_eq_imp_distinct_iff)
qed

lemma first_index_less: "x \<in> set xs \<Longrightarrow> first_index xs x < length xs"
  by (induction xs) auto

lemma first_index_append_in: "x \<in> set xs \<Longrightarrow> first_index (xs @ ys) x = first_index xs x"
  by (induction xs) auto

lemma first_index_append_notin:
  "x \<notin> set xs \<Longrightarrow> first_index (xs @ ys) x = length xs + first_index ys x"
  by (induction xs) auto

lemma first_index_nth: "x \<in> set xs \<Longrightarrow> xs ! first_index xs x = x"
  by (induction xs) auto



lemma rrf_accumulate_keys:
  "map fst (fst (rrf_accumulate h hp k rank docs (ds, dobj)))
     = fold first_seen (map (doc_id_of h hp) docs) (map fst ds)"
  by (induction docs arbitrary: rank ds dobj)
     (simp_all add: Let_def keys_od_set doc_id_of_def del: first_seen.simps)

lemma rrf_accumulate_obj_keys:
  "map fst (snd (rrf_accumulate h hp k rank docs (ds, dobj)))
     = fold first_seen (map (doc_id_of h hp) docs) (map fst dobj)"
  by (induction docs arbitrary: rank ds dobj)
     (simp_all add: Let_def keys_od_set doc_id_of_def del: first_seen.simps)

lemma rrf_accumulate_scores:
  "map_of (fst (rrf_accumulate h hp k rank docs (ds, dobj))) i
     = (if i \<in> doc_id_of h hp ` set docs \<or> i \<in> fst ` set ds
        then Some (score_of ds i + rrf_terms k rank i (map (doc_id_of h hp) docs))
        else None)"
proof (induction docs arbitrary: rank ds dobj)
  case Nil
  show ?case
    by (auto simp: score_of_def dom_map_of_conv_image_fst[symmetric] domIff split: option.splits)
next
  case (Cons doc docs)
  define j where "j = doc_id_of h hp doc"
  define ds' where "ds' = od_set j (score_of ds j + 1 / of_nat (k + rank + 1)) ds"
  have step: "rrf_accumulate h hp k rank (doc # docs) (ds, dobj)
      = rrf_accumulate h hp k (Suc rank) docs (ds', od_set j doc dobj)"
    by (simp add: Let_def ds'_def j_def doc_id_of_def score_of_def)
  have keys: "fst ` set ds' = insert j (fst ` set ds)"
  proof -
    have "set (map fst ds') = insert j (set (map fst ds))"
      unfolding ds'_def keys_od_set by auto
    then show ?thesis by simp
  qed
  have sc: "score_of ds' i = (if i = j then score_of ds j + 1 / of_nat (k + rank + 1) else score_of ds i)"
    by (simp add: score_of_def ds'_def map_of_od_set)
  show ?case
    unfolding step Cons.IH keys sc
    by (auto simp: j_def)
qed

lemma rrf_accumulate_obj:
  assumes "map_of (snd (rrf_accumulate h hp k rank docs (ds, dobj))) i = Some r"
  shows "map_of dobj i = Some r \<or> (r \<in> set docs \<and> doc_id_of h hp r = i)"
  using assms
proof (induction docs arbitrary: rank ds dobj)
  case Nil
  then show ?case by simp
next
  case (Cons doc docs)
  define j where "j = doc_id_of h hp doc"
  obtain ds' where step: "rrf_accumulate h hp k rank (doc # docs) (ds, dobj)
      = rrf_accumulate h hp k (Suc rank) docs (ds', od_set j doc dobj)"
    by (simp add: Let_def j_def doc_id_of_def)
  from Cons.prems have "map_of (snd (rrf_accumulate h hp k (Suc rank) docs (ds', od_set j doc dobj))) i = Some r"
    unfolding step .
  from Cons.IH[OF this]
  have "map_of (od_set j doc dobj) i = Some r \<or> (r \<in> set docs \<and> doc_id_of h hp r = i)" .
  then show ?case
    by (auto simp: map_of_od_set j_def split: if_splits)
qed

lemma rrf_tables_keys:
  "map fst (fst (rrf_tables h hp vs bs k)) = fold first_seen (seen_ids h hp vs bs) []"
proof -
  obtain ds dobj where a: "rrf_accumulate h hp k 0 vs ([], []) = (ds, dobj)"
    by (cases "rrf_accumulate h hp k 0 vs ([], [])") auto
  have "map fst ds = fold first_seen (map (doc_id_of h hp) vs) []"
    using rrf_accumulate_keys[of h hp k 0 vs "[]" "[]"] a by simp
  then show ?thesis
    using rrf_accumulate_keys[of h hp k 0 bs ds dobj] a
    by (simp add: rrf_tables_def seen_ids_def)
qed

lemma rrf_tables_obj_keys:
  "map fst (snd (rrf_tables h hp vs bs k)) = fold first_seen (seen_ids h hp vs bs) []"
proof -
  obtain ds dobj where a: "rrf_accumulate h hp k 0 vs ([], []) = (ds, dobj)"
    by (cases "rrf_accumulate h hp k 0 vs ([], [])") auto
  have "map fst dobj = fold first_seen (map (doc_id_of h hp) vs) []"
    using rrf_accumulate_obj_keys[of h hp k 0 vs "[]" "[]"] a by simp
  then show ?thesis
    using rrf_accumulate_obj_keys[of h hp k 0 bs ds dobj] a
    by (simp add: rrf_tables_def seen_ids_def)
qed

lemma rrf_tables_distinct: "distinct (map fst (fst (rrf_tables h hp vs bs k)))"
  by (simp add: rrf_tables_keys distinct_fold_first_seen)

lemma rrf_tables_scores:
  "map_of (fst (rrf_tables h hp vs bs k)) i
     = (if i \<in> set (seen_ids h hp vs bs) then Some (fused_score h hp k vs bs i) else None)"
proof -
  obtain ds dobj where a: "rrf_accumulate h hp k 0 vs ([], []) = (ds, dobj)"
    by (cases "rrf_accumulate h hp k 0 vs ([], [])") auto
  have m: "map_of ds i = (if i \<in> doc_id_of h hp ` set vs
                          then Some (rrf_terms k 0 i (map (doc_id_of h hp) vs)) else None)"
    using rrf_accumulate_scores[of h hp k 0 vs "[]" "[]" i] a by (simp add: score_of_def)
  have dom: "(i \<in> fst ` set ds) = (i \<in> doc_id_of h hp ` set vs)"
    using m by (simp add: dom_map_of_conv_image_fst[symmetric] domIff)
  have notin: "i \<notin> set xs \<Longrightarrow> rrf_terms k rank i xs = 0" for rank and xs :: "'a list"
    by (induction xs arbitrary: rank) auto
  have sc: "score_of ds i = rrf_terms k 0 i (map (doc_id_of h hp) vs)"
    using m notin[of "map (doc_id_of h hp) vs" 0] by (auto simp: score_of_def)
  show ?thesis
    using rrf_accumulate_scores[of h hp k 0 bs ds dobj i] a
    by (simp add: rrf_tables_def dom sc fused_score_def seen_ids_def image_Un)
qed

lemma rrf_tables_obj:
  assumes "map_of (snd (rrf_tables h hp vs bs k)) i = Some r"
  shows "r \<in> set vs \<union> set bs \<and> doc_id_of h hp r = i"
proof -
  obtain ds dobj where a: "rrf_accumulate h hp k 0 vs ([], []) = (ds, dobj)"
    by (cases "rrf_accumulate h hp k 0 vs ([], [])") auto
  from assms have "map_of (snd (rrf_accumulate h hp k 0 bs (ds, dobj))) i = Some r"
    by (simp add: rrf_tables_def a)
  from rrf_accumulate_obj[OF this]
  have "map_of dobj i = Some r \<or> (r \<in> set bs \<and> doc_id_of h hp r = i)" .
  moreover have "map_of dobj i = Some r \<Longrightarrow> r \<in> set vs \<and> doc_id_of h hp r = i"
    using rrf_accumulate_obj[of h hp k 0 vs "[]" "[]" i r] a by simp
  ultimately show ?thesis by auto
qed

lemma rrf_tables_obj_dom:
  "i \<in> set (seen_ids h hp vs bs) \<Longrightarrow> \<exists>r. map_of (snd (rrf_tables h hp vs bs k)) i = Some r"
proof -
  assume "i \<in> set (seen_ids h hp vs bs)"
  then have "i \<in> set (map fst (snd (rrf_tables h hp vs bs k)))"
    by (simp add: rrf_tables_obj_keys set_fold_first_seen)
  then have "i \<in> dom (map_of (snd (rrf_tables h hp vs bs k)))"
    by (simp add: dom_map_of_conv_image_fst)
  then show ?thesis by (auto simp: domIff)
qed

subsection \<open>The collecting loop\<close>

lemma rrf_collect_frame:
  assumes "rrf_collect dobj items hp = (docs, hp')"
  shows "page_content (hp' r) = page_content (hp r)
       \<and> (key \<noteq> ''rrf_score'' \<longrightarrow> doc_metadata (hp' r) key = doc_metadata (hp r) key)
       \<and> (r \<notin> set docs \<longrightarrow> hp' r = hp r)"
  using assms
proof (induction items arbitrary: hp docs hp')
  case Nil
  then show ?case by simp
next
  case (Cons item rest)
  obtain doc_id final_score where item: "item = (doc_id, final_score)" by (cases item) auto
  show ?case
  proof (cases "map_of dobj doc_id")
    case None
    with Cons item show ?thesis by simp
  next
    case (Some doc)
    obtain docs1 hp1 where rec: "rrf_collect dobj rest (set_rrf_score hp doc final_score) = (docs1, hp1)"
      by (cases "rrf_collect dobj rest (set_rrf_score hp doc final_score)") auto
    have res: "docs = doc # docs1" "hp' = hp1"
      using Cons.prems Some rec item by simp_all
    from Cons.IH[OF rec] res show ?thesis by (auto simp: set_rrf_score_def)
  qed
qed

lemma rrf_collect_docs:
  assumes "\<forall>p\<in>set items. map_of dobj (fst p) \<noteq> None"
  shows "fst (rrf_collect dobj items hp) = map (\<lambda>p. the (map_of dobj (fst p))) items"
  using assms
proof (induction items arbitrary: hp)
  case Nil
  then show ?case by simp
next
  case (Cons item rest)
  obtain doc_id final_score where item: "item = (doc_id, final_score)" by (cases item) auto
  from Cons.prems item obtain doc where Some: "map_of dobj doc_id = Some doc" by auto
  have "fst (rrf_collect dobj rest (set_rrf_score hp doc final_score))
          = map (\<lambda>p. the (map_of dobj (fst p))) rest"
    using Cons by simp
  then show ?case using item Some
    by (cases "rrf_collect dobj rest (set_rrf_score hp doc final_score)") simp
qed

lemma rrf_collect_docs_subset:
  "r \<in> set (fst (rrf_collect dobj items hp)) \<Longrightarrow> \<exists>p\<in>set items. map_of dobj (fst p) = Some r"
proof (induction items arbitrary: hp)
  case Nil
  then show ?case by simp
next
  case (Cons item rest)
  obtain doc_id final_score where item: "item = (doc_id, final_score)" by (cases item) auto
  show ?case
  proof (cases "map_of dobj doc_id")
    case None
    with Cons item show ?thesis by auto
  next
    case (Some doc)
    from Cons.prems item Some
    have "r = doc \<or> r \<in> set (fst (rrf_collect dobj rest (set_rrf_score hp doc final_score)))"
      by (auto split: prod.splits)
    then show ?thesis using Cons.IH item Some by auto
  qed
qed

lemma rrf_collect_written:
  assumes "distinct (map fst items)"
    and "\<forall>p\<in>set items. \<forall>q\<in>set items.
           map_of dobj (fst p) = map_of dobj (fst q) \<longrightarrow> fst p = fst q"
    and "(i, s) \<in> set items" and "map_of dobj i = Some r"
  shows "doc_metadata (snd (rrf_collect dobj items hp) r) ''rrf_score'' = Some (PyNum s)"
  using assms
proof (induction items arbitrary: hp)
  case Nil
  then show ?case by simp
next
  case (Cons item rest)
  obtain doc_id final_score where item: "item = (doc_id, final_score)" by (cases item) auto
  show ?case
  proof (cases "(i, s) \<in> set rest")
    case True
    have d: "distinct (map fst rest)" using Cons.prems(1) by simp
    have inj: "\<forall>p\<in>set rest. \<forall>q\<in>set rest.
           map_of dobj (fst p) = map_of dobj (fst q) \<longrightarrow> fst p = fst q"
      using Cons.prems(2) by simp
    note ih = Cons.IH[OF d inj True Cons.prems(4)]
    show ?thesis
    proof (cases "map_of dobj doc_id")
      case None
      then show ?thesis using ih[of hp] item by simp
    next
      case (Some doc)
      then show ?thesis using ih[of "set_rrf_score hp doc final_score"] item
        by (cases "rrf_collect dobj rest (set_rrf_score hp doc final_score)") simp
    qed
  next
    case False
    then have eq: "doc_id = i" "final_score = s" using Cons.prems(3) item by auto
    obtain docs1 hp1 where rec: "rrf_collect dobj rest (set_rrf_score hp r s) = (docs1, hp1)"
      by (cases "rrf_collect dobj rest (set_rrf_score hp r s)") auto
    have "r \<notin> set docs1"
    proof
      assume "r \<in> set docs1"
      then have "r \<in> set (fst (rrf_collect dobj rest (set_rrf_score hp r s)))" using rec by simp
      from rrf_collect_docs_subset[OF this]
      obtain p where p: "p \<in> set rest" "map_of dobj (fst p) = Some r" by auto
      have "fst p = fst item"
        using Cons.prems(2) p Cons.prems(4) item eq by auto
      then show False using Cons.prems(1) p(1) by (auto simp: image_iff)
    qed
    then have "hp1 r = set_rrf_score hp r s r"
      using rrf_collect_frame[OF rec, of r] by simp
    moreover have "snd (rrf_collect dobj (item # rest) hp) = hp1"
      using item eq Cons.prems(4) rec by simp
    ultimately show ?thesis by (simp add: set_rrf_score_def)
  qed
qed

lemma rrf_terms_notin: "i \<notin> set xs \<Longrightarrow> rrf_terms k rank i xs = 0"
  by (induction xs arbitrary: rank) auto

lemma rrf_terms_distinct:
  "distinct xs \<Longrightarrow> j < length xs \<Longrightarrow> rrf_terms k rank (xs ! j) xs = 1 / of_nat (k + rank + j + 1)"
proof (induction xs arbitrary: rank j)
  case Nil
  then show ?case by simp
next
  case (Cons x xs)
  show ?case
  proof (cases j)
    case 0
    then show ?thesis using Cons.prems by (simp add: rrf_terms_notin)
  next
    case (Suc j')
    then have "xs ! j' \<noteq> x" using Cons.prems by auto
    then show ?thesis using Suc Cons.prems Cons.IH[of j' "Suc rank"] by simp
  qed
qed

lemma rrf_rerank_collect:
  "rrf_rerank h hp vs bs k = rrf_collect (snd (rrf_tables h hp vs bs k)) (sorted_docs h hp vs bs k) hp"
  by (simp add: rrf_rerank_def sorted_docs_def split: prod.splits)

lemma sorted_docs_set: "set (sorted_docs h hp vs bs k) = set (fst (rrf_tables h hp vs bs k))"
  by (simp add: sorted_docs_def set_py_sorted_reverse)

lemma sorted_docs_distinct: "distinct (map fst (sorted_docs h hp vs bs k))"
  by (simp add: sorted_docs_def distinct_py_sorted_reverse rrf_tables_distinct)

lemma sorted_docs_keys: "set (map fst (sorted_docs h hp vs bs k)) = set (seen_ids h hp vs bs)"
proof -
  have "set (map fst (sorted_docs h hp vs bs k)) = set (map fst (fst (rrf_tables h hp vs bs k)))"
    using sorted_docs_set[of h hp vs bs k] by simp
  then show ?thesis by (simp add: rrf_tables_keys set_fold_first_seen)
qed

lemma sorted_docs_score:
  assumes "p \<in> set (sorted_docs h hp vs bs k)"
  shows "snd p = fused_score h hp k vs bs (fst p)"
proof -
  have "(fst p, snd p) \<in> set (fst (rrf_tables h hp vs bs k))"
    using assms sorted_docs_set[of h hp vs bs k] by simp
  then have "map_of (fst (rrf_tables h hp vs bs k)) (fst p) = Some (snd p)"
    using rrf_tables_distinct[of h hp vs bs k] by simp
  then show ?thesis by (simp add: rrf_tables_scores split: if_splits)
qed

lemma sorted_docs_found:
  assumes "p \<in> set (sorted_docs h hp vs bs k)"
  shows "\<exists>r. map_of (snd (rrf_tables h hp vs bs k)) (fst p) = Some r
            \<and> r \<in> set vs \<union> set bs \<and> doc_id_of h hp r = fst p"
proof -
  have "fst p \<in> set (seen_ids h hp vs bs)"
    using assms sorted_docs_keys[of h hp vs bs k] by auto
  from rrf_tables_obj_dom[OF this, of k] obtain r where
    r: "map_of (snd (rrf_tables h hp vs bs k)) (fst p) = Some r" by auto
  with rrf_tables_obj[OF r] show ?thesis by simp
qed

lemma rrf_rerank_docs:
  "fst (rrf_rerank h hp vs bs k)
     = map (\<lambda>p. the (map_of (snd (rrf_tables h hp vs bs k)) (fst p))) (sorted_docs h hp vs bs k)"
  unfolding rrf_rerank_collect
  by (rule rrf_collect_docs) (use sorted_docs_found in fastforce)


lemma rrf_rerank_subset: "set (fst (rrf_rerank h hp vs bs k)) \<subseteq> set vs \<union> set bs"
proof
  fix r assume "r \<in> set (fst (rrf_rerank h hp vs bs k))"
  then obtain p where p: "p \<in> set (sorted_docs h hp vs bs k)"
    "r = the (map_of (snd (rrf_tables h hp vs bs k)) (fst p))"
    by (auto simp: rrf_rerank_docs)
  from sorted_docs_found[OF p(1)] p(2) show "r \<in> set vs \<union> set bs" by auto
qed

lemma rrf_rerank_frame:
  "page_content (snd (rrf_rerank h hp vs bs k) r) = page_content (hp r)
   \<and> (key \<noteq> ''rrf_score'' \<longrightarrow> doc_metadata (snd (rrf_rerank h hp vs bs k) r) key = doc_metadata (hp r) key)
   \<and> (r \<notin> set (fst (rrf_rerank h hp vs bs k)) \<longrightarrow> snd (rrf_rerank h hp vs bs k) r = hp r)"
  using rrf_collect_frame[of "snd (rrf_tables h hp vs bs k)" "sorted_docs h hp vs bs k" hp
      "fst (rrf_rerank h hp vs bs k)" "snd (rrf_rerank h hp vs bs k)" r key]
  by (simp add: rrf_rerank_collect)

lemma rrf_rerank_written:
  assumes "r \<in> set (fst (rrf_rerank h hp vs bs k))"
  shows "doc_metadata (snd (rrf_rerank h hp vs bs k) r) ''rrf_score''
           = Some (PyNum (fused_score h hp k vs bs (doc_id_of h hp r)))"
proof -
  let ?dobj = "snd (rrf_tables h hp vs bs k)"
  let ?items = "sorted_docs h hp vs bs k"
  from assms obtain p where p: "p \<in> set ?items" "r = the (map_of ?dobj (fst p))"
    by (auto simp: rrf_rerank_docs)
  from sorted_docs_found[OF p(1)] p(2)
  have r: "map_of ?dobj (fst p) = Some r" "doc_id_of h hp r = fst p" by auto
  have inj: "\<forall>p\<in>set ?items. \<forall>q\<in>set ?items.
           map_of ?dobj (fst p) = map_of ?dobj (fst q) \<longrightarrow> fst p = fst q"
  proof (intro ballI impI)
    fix a b assume ab: "a \<in> set ?items" "b \<in> set ?items" "map_of ?dobj (fst a) = map_of ?dobj (fst b)"
    from sorted_docs_found[OF ab(1)] sorted_docs_found[OF ab(2)] ab(3)
    show "fst a = fst b" by auto
  qed
  have "(fst p, snd p) \<in> set ?items" using p(1) by simp
  from rrf_collect_written[OF sorted_docs_distinct inj this r(1), of hp]
  show ?thesis using sorted_docs_score[OF p(1)] r(2) by (simp add: rrf_rerank_collect)
qed



text \<open>The equations that evaluate the examples.\<close>

lemmas ex_eval = hybrid_search_def bm25_search_def rrf_rerank_def rrf_tables_def
  py_sorted_reverse_def Let_def ex_heap_def ex_module_def set_rrf_score_def py_slice_to_def
  content_hash_def doc_id_of_def fused_score_def seen_ids_def

lemma hybrid_search_ok:
  assumes "similarity_search m q = Inr vs" "bm25_search m q = Inr (Some bs)"
  shows "hybrid_search h m hp q top_k =
          (if vs = [] \<and> bs = [] then (Inr [], hp)
           else (Inr (py_slice_to (fst (rrf_rerank h hp vs bs 60)) top_k), snd (rrf_rerank h hp vs bs 60)))"
  using assms by (simp add: hybrid_search_def split: prod.splits)



text \<open>
  The score law of claim C2 fails when one engine returns two documents with the same
  content: documents 0 and 2 both have content "a", the vector list is \<open>[0, 2]\<close> and the
  BM25 list is empty. The content is at rank 1 of the vector list and absent from the
  other, yet its fused score is \<open>1/61 + 1/62\<close>, not \<open>1/61\<close>.
\<close>

theorem C2_fused_score_counterexample:
  "doc_id_of content_hash ex_heap ([0, 2] ! 0) = ''a''
   \<and> ''a'' \<notin> set (map (doc_id_of content_hash ex_heap) [])
   \<and> map_of (fst (rrf_tables content_hash ex_heap [0, 2] [] 60)) ''a'' = Some (1 / 61 + 1 / 62)
   \<and> doc_metadata (snd (hybrid_search content_hash (ex_module (Inr [0, 2]) (Inr [])) ex_heap ''q'' 5) 2)
        ''rrf_score'' = Some (PyNum (1 / 61 + 1 / 62))
   \<and> (1 / 61 + 1 / 62 :: rat) \<noteq> 1 / (60 + 1)"
  by (simp add: ex_eval)

text \<open>
  Claim C2, amended. The fused score of an identity (content hash) is the sum of
  \<open>1 / (60 + r)\<close> over every 1-based rank \<open>r\<close> at which it occurs in the vector list plus
  the same sum over the BM25 list, and this is the value written under \<open>rrf_score\<close> into
  each reranked document. When no identity occurs twice within one list, an identity at
  rank \<open>j1 + 1\<close> of the vector list and rank \<open>j2 + 1\<close> of the BM25 list scores
  \<open>1 / (60 + (j1 + 1)) + 1 / (60 + (j2 + 1))\<close>, and an identity in one list only gets that
  list's term.
\<close>

theorem C2_fused_score:
  fixes h :: "string \<Rightarrow> 'h"
  assumes "ids_v = map (doc_id_of h hp) vector_docs" and "ids_b = map (doc_id_of h hp) bm25_docs"
  shows "map_of (fst (rrf_tables h hp vector_docs bm25_docs 60)) i
           = (if i \<in> set ids_v \<union> set ids_b
              then Some (rrf_terms 60 0 i ids_v + rrf_terms 60 0 i ids_b) else None)
       \<and> (\<forall>r\<in>set (fst (rrf_rerank h hp vector_docs bm25_docs 60)).
            doc_metadata (snd (rrf_rerank h hp vector_docs bm25_docs 60) r) ''rrf_score''
              = Some (PyNum (rrf_terms 60 0 (doc_id_of h hp r) ids_v
                              + rrf_terms 60 0 (doc_id_of h hp r) ids_b)))
       \<and> (distinct ids_v \<and> distinct ids_b \<longrightarrow>
            (\<forall>j1 j2. j1 < length ids_v \<and> j2 < length ids_b \<and> ids_v ! j1 = i \<and> ids_b ! j2 = i \<longrightarrow>
               map_of (fst (rrf_tables h hp vector_docs bm25_docs 60)) i
                 = Some (1 / of_nat (60 + (j1 + 1)) + 1 / of_nat (60 + (j2 + 1))))
          \<and> (\<forall>j1. j1 < length ids_v \<and> ids_v ! j1 = i \<and> i \<notin> set ids_b \<longrightarrow>
               map_of (fst (rrf_tables h hp vector_docs bm25_docs 60)) i
                 = Some (1 / of_nat (60 + (j1 + 1))))
          \<and> (\<forall>j2. j2 < length ids_b \<and> ids_b ! j2 = i \<and> i \<notin> set ids_v \<longrightarrow>
               map_of (fst (rrf_tables h hp vector_docs bm25_docs 60)) i
                 = Some (1 / of_nat (60 + (j2 + 1)))))"
proof -
  have gen: "map_of (fst (rrf_tables h hp vector_docs bm25_docs 60)) i
           = (if i \<in> set ids_v \<union> set ids_b
              then Some (rrf_terms 60 0 i ids_v + rrf_terms 60 0 i ids_b) else None)" for i
    by (simp add: rrf_tables_scores seen_ids_def fused_score_def assms)
  have written: "\<forall>r\<in>set (fst (rrf_rerank h hp vector_docs bm25_docs 60)).
            doc_metadata (snd (rrf_rerank h hp vector_docs bm25_docs 60) r) ''rrf_score''
              = Some (PyNum (rrf_terms 60 0 (doc_id_of h hp r) ids_v
                              + rrf_terms 60 0 (doc_id_of h hp r) ids_b))"
    using rrf_rerank_written[of _ h hp vector_docs bm25_docs 60]
    by (simp add: fused_score_def assms)
  have both: "map_of (fst (rrf_tables h hp vector_docs bm25_docs 60)) i
                 = Some (1 / of_nat (60 + (j1 + 1)) + 1 / of_nat (60 + (j2 + 1)))"
    if "distinct ids_v" "distinct ids_b" "j1 < length ids_v" "j2 < length ids_b"
       "ids_v ! j1 = i" "ids_b ! j2 = i" for j1 j2
  proof -
    have "rrf_terms 60 0 i ids_v = 1 / of_nat (60 + (j1 + 1))"
      using rrf_terms_distinct[OF that(1,3), of 60 0] that(5) by simp
    moreover have "rrf_terms 60 0 i ids_b = 1 / of_nat (60 + (j2 + 1))"
      using rrf_terms_distinct[OF that(2,4), of 60 0] that(6) by simp
    moreover have "i \<in> set ids_v" using that(3,5) nth_mem by blast
    ultimately show ?thesis by (simp add: gen)
  qed
  have only_v: "map_of (fst (rrf_tables h hp vector_docs bm25_docs 60)) i
                 = Some (1 / of_nat (60 + (j1 + 1)))"
    if "distinct ids_v" "j1 < length ids_v" "ids_v ! j1 = i" "i \<notin> set ids_b" for j1
  proof -
    have "rrf_terms 60 0 i ids_v = 1 / of_nat (60 + (j1 + 1))"
      using rrf_terms_distinct[OF that(1,2), of 60 0] that(3) by simp
    moreover have "i \<in> set ids_v" using that(2,3) nth_mem by blast
    ultimately show ?thesis using that(4) by (simp add: gen rrf_terms_notin)
  qed
  have only_b: "map_of (fst (rrf_tables h hp vector_docs bm25_docs 60)) i
                 = Some (1 / of_nat (60 + (j2 + 1)))"
    if "distinct ids_b" "j2 < length ids_b" "ids_b ! j2 = i" "i \<notin> set ids_v" for j2
  proof -
    have "rrf_terms 60 0 i ids_b = 1 / of_nat (60 + (j2 + 1))"
      using rrf_terms_distinct[OF that(1,2), of 60 0] that(3) by simp
    moreover have "i \<in> set ids_b" using that(2,3) nth_mem by blast
    ultimately show ?thesis using that(4) by (simp add: gen rrf_terms_notin)
  qed
  show ?thesis
    using gen[of i] written both only_v only_b by blast
qed

theorem C2_fused_score_witness:
  "distinct (map (doc_id_of content_hash ex_heap) [0, 1]) \<and> distinct (map (doc_id_of content_hash ex_heap) [1, 3])
   \<and> map (doc_id_of content_hash ex_heap) [0, 1] ! 1 = ''b'' \<and> map (doc_id_of content_hash ex_heap) [1, 3] ! 0 = ''b''
   \<and> map_of (fst (rrf_tables content_hash ex_heap [0, 1] [1, 3] 60)) ''b'' = Some (1 / 62 + 1 / 61)
   \<and> map_of (fst (rrf_tables content_hash ex_heap [0, 1] [1, 3] 60)) ''a'' = Some (1 / 61)
   \<and> map_of (fst (rrf_tables content_hash ex_heap [0, 1] [1, 3] 60)) ''c'' = Some (1 / 62)"
proof -
  have d: "distinct (map (doc_id_of content_hash ex_heap) [0, 1])
         \<and> distinct (map (doc_id_of content_hash ex_heap) [1, 3])"
    by (simp add: doc_id_of_def content_hash_def ex_heap_def)
  have n: "map (doc_id_of content_hash ex_heap) [0, 1] ! 1 = ''b''
         \<and> map (doc_id_of content_hash ex_heap) [1, 3] ! 0 = ''b''
         \<and> map (doc_id_of content_hash ex_heap) [0, 1] ! 0 = ''a''
         \<and> map (doc_id_of content_hash ex_heap) [1, 3] ! 1 = ''c''
         \<and> ''a'' \<notin> set (map (doc_id_of content_hash ex_heap) [1, 3])
         \<and> ''c'' \<notin> set (map (doc_id_of content_hash ex_heap) [0, 1])"
    by (simp add: doc_id_of_def content_hash_def ex_heap_def)
  note t = C2_fused_score[OF refl refl, of content_hash ex_heap "[0, 1]" "[1, 3]"]
  have b: "map_of (fst (rrf_tables content_hash ex_heap [0, 1] [1, 3] 60)) ''b'' = Some (1 / 62 + 1 / 61)"
    using t[of "''b''"] d n by (simp add: ex_eval)
  have a: "map_of (fst (rrf_tables content_hash ex_heap [0, 1] [1, 3] 60)) ''a'' = Some (1 / 61)"
    using t[of "''a''"] d n by (simp add: ex_eval)
  have c: "map_of (fst (rrf_tables content_hash ex_heap [0, 1] [1, 3] 60)) ''c'' = Some (1 / 62)"
    using t[of "''c''"] d n by (simp add: ex_eval)
  show ?thesis using d n a b c by blast
qed

lemma hybrid_search_cases:
  "(\<exists>e. similarity_search m q = Inl e \<and> hybrid_search h m hp q top_k = (Inr [], hp))
   \<or> (\<exists>vs e. similarity_search m q = Inr vs \<and> bm25_search m q = Inl e
              \<and> hybrid_search h m hp q top_k = (Inl e, hp))
   \<or> (\<exists>vs. similarity_search m q = Inr vs \<and> bm25_search m q = Inr None
              \<and> hybrid_search h m hp q top_k = (Inr [], hp))
   \<or> (\<exists>vs bs. similarity_search m q = Inr vs \<and> bm25_search m q = Inr (Some bs)
              \<and> hybrid_search h m hp q top_k =
                  (if vs = [] \<and> bs = [] then (Inr [], hp)
                   else (Inr (py_slice_to (fst (rrf_rerank h hp vs bs 60)) top_k),
                         snd (rrf_rerank h hp vs bs 60))))"
proof (cases "similarity_search m q")
  case (Inl e)
  then show ?thesis by (simp add: hybrid_search_def)
next
  case (Inr vs)
  show ?thesis
  proof (cases "bm25_search m q")
    case (Inl e)
    then show ?thesis using Inr by (simp add: hybrid_search_def)
  next
    case r: (Inr ob)
    show ?thesis
    proof (cases ob)
      case None
      then show ?thesis using Inr r by (simp add: hybrid_search_def)
    next
      case (Some bs)
      then show ?thesis using Inr r hybrid_search_ok[of m q vs bs h hp top_k] by simp
    qed
  qed
qed

lemma set_py_slice_to: "set (py_slice_to xs i) \<subseteq> set xs"
  by (auto simp: py_slice_to_def dest: in_set_takeD)

text \<open>
  Claim C7 fails: the call returns the engines' own document 1 (an alias) and has written
  \<open>rrf_score\<close> into its metadata, so the stored object is changed.
\<close>

theorem C7_hybrid_search_counterexample:
  "fst (hybrid_search content_hash (ex_module (Inr [0, 1]) (Inr [1, 3])) ex_heap ''q'' 5) = Inr [1, 0, 3]
   \<and> doc_metadata (ex_heap 1) ''rrf_score'' = None
   \<and> doc_metadata (snd (hybrid_search content_hash (ex_module (Inr [0, 1]) (Inr [1, 3])) ex_heap ''q'' 5) 1)
        ''rrf_score'' = Some (PyNum (1 / 62 + 1 / 61))
   \<and> snd (hybrid_search content_hash (ex_module (Inr [0, 1]) (Inr [1, 3])) ex_heap ''q'' 5) 1 \<noteq> ex_heap 1"
proof -
  have a: "fst (hybrid_search content_hash (ex_module (Inr [0, 1]) (Inr [1, 3])) ex_heap ''q'' 5) = Inr [1, 0, 3]"
    by (simp add: ex_eval)
  have b: "doc_metadata (ex_heap 1) ''rrf_score'' = None" by (simp add: ex_heap_def)
  have c: "doc_metadata (snd (hybrid_search content_hash (ex_module (Inr [0, 1]) (Inr [1, 3])) ex_heap ''q'' 5) 1)
        ''rrf_score'' = Some (PyNum (1 / 62 + 1 / 61))"
    by (simp add: ex_eval)
  have d: "snd (hybrid_search content_hash (ex_module (Inr [0, 1]) (Inr [1, 3])) ex_heap ''q'' 5) 1 \<noteq> ex_heap 1"
    using b c by (metis option.distinct(1))
  show ?thesis using a b c d by blast
qed

text \<open>
  Claim C7, amended. \<open>hybrid_search\<close> never changes the content of a stored document nor
  any metadata key other than \<open>rrf_score\<close>. When both engines return lists, every
  returned document is one of the engines' own objects (a reference, not a copy) and
  carries its fused score under \<open>rrf_score\<close>; objects that neither engine returned are
  unchanged. When an engine fails the store is unchanged.
\<close>

theorem C7_hybrid_search_frame:
  assumes "hybrid_search h m hp q top_k = (res, hp')"
  shows "(\<forall>r. page_content (hp' r) = page_content (hp r)
              \<and> (\<forall>key. key \<noteq> ''rrf_score'' \<longrightarrow> doc_metadata (hp' r) key = doc_metadata (hp r) key))
       \<and> (\<forall>vs bs docs. similarity_search m q = Inr vs \<and> bm25_search m q = Inr (Some bs) \<and> res = Inr docs \<longrightarrow>
             (\<forall>r\<in>set docs. r \<in> set vs \<union> set bs
                 \<and> doc_metadata (hp' r) ''rrf_score''
                     = Some (PyNum (fused_score h hp 60 vs bs (doc_id_of h hp r))))
           \<and> (\<forall>r. r \<notin> set vs \<union> set bs \<longrightarrow> hp' r = hp r))
       \<and> ((\<exists>e. similarity_search m q = Inl e) \<or> (\<exists>e. bm25_search m q = Inl e) \<or> bm25_search m q = Inr None
            \<longrightarrow> hp' = hp)"
proof -
  have frame: "page_content (hp' r) = page_content (hp r)
              \<and> (\<forall>key. key \<noteq> ''rrf_score'' \<longrightarrow> doc_metadata (hp' r) key = doc_metadata (hp r) key)" for r
    using hybrid_search_cases[of m q h hp top_k] assms rrf_rerank_frame[of h hp _ _ 60 r]
    by (auto split: if_splits)
  have ok: "(\<forall>r\<in>set docs. r \<in> set vs \<union> set bs
                 \<and> doc_metadata (hp' r) ''rrf_score''
                     = Some (PyNum (fused_score h hp 60 vs bs (doc_id_of h hp r))))
           \<and> (\<forall>r. r \<notin> set vs \<union> set bs \<longrightarrow> hp' r = hp r)"
    if vs: "similarity_search m q = Inr vs" and bs: "bm25_search m q = Inr (Some bs)"
      and res: "res = Inr docs" for vs bs docs
  proof (cases "vs = [] \<and> bs = []")
    case True
    then show ?thesis using hybrid_search_ok[OF vs bs, of h hp top_k] assms res by simp
  next
    case False
    then have eq: "docs = py_slice_to (fst (rrf_rerank h hp vs bs 60)) top_k"
        "hp' = snd (rrf_rerank h hp vs bs 60)"
      using hybrid_search_ok[OF vs bs, of h hp top_k] assms res by (auto split: if_splits)
    have sub: "set docs \<subseteq> set (fst (rrf_rerank h hp vs bs 60))"
      unfolding eq(1) by (rule set_py_slice_to)
    have "r \<in> set vs \<union> set bs \<and> doc_metadata (hp' r) ''rrf_score''
                     = Some (PyNum (fused_score h hp 60 vs bs (doc_id_of h hp r)))"
      if "r \<in> set docs" for r
      using that sub rrf_rerank_subset[of h hp vs bs 60] rrf_rerank_written[of r h hp vs bs 60] eq(2)
      by auto
    moreover have "hp' r = hp r" if "r \<notin> set vs \<union> set bs" for r
      using that rrf_rerank_subset[of h hp vs bs 60] rrf_rerank_frame[of h hp vs bs 60 r] eq(2)
      by auto
    ultimately show ?thesis by blast
  qed
  have fail: "hp' = hp"
    if "(\<exists>e. similarity_search m q = Inl e) \<or> (\<exists>e. bm25_search m q = Inl e) \<or> bm25_search m q = Inr None"
    using hybrid_search_cases[of m q h hp top_k] assms that by auto
  show ?thesis using frame ok fail by blast
qed

text \<open>
  Claim C1 fails. With the vector engine raising and the BM25 engine returning
  \<open>[1]\<close>, the result is the empty list, not the fusion \<open>[1]\<close> of the surviving list; with
  both engines raising, the result is the empty list as well and nothing is raised.
\<close>

theorem C1_hybrid_search_counterexample:
  "similarity_search (ex_module (Inl (OtherError ''down'')) (Inr [1])) ''q'' = Inl (OtherError ''down'')
   \<and> get_relevant_documents (ex_module (Inl (OtherError ''down'')) (Inr [1])) ''q'' = Inr [1]
   \<and> fst (hybrid_search content_hash (ex_module (Inl (OtherError ''down'')) (Inr [1])) ex_heap ''q'' 5) = Inr []
   \<and> fst (rrf_rerank content_hash ex_heap [] [1] 60) = [1]
   \<and> fst (hybrid_search content_hash
            (ex_module (Inl (OtherError ''down'')) (Inl (OtherError ''down''))) ex_heap ''q'' 5) = Inr []"
  by (simp add: ex_eval)

text \<open>
  Claim C1, amended. If the vector engine raises, \<open>hybrid_search\<close> returns the empty list
  and leaves the store alone, whatever the BM25 engine would do; if the vector engine
  returns and the public BM25 method raises \<open>TypeError\<close>, it returns the empty list too.
  An \<open>AttributeError\<close> of the public BM25 method is recovered by the private method.
  When both engines return lists, not both empty, the result is the fused ranking cut to
  \<open>top_k\<close>.
\<close>

theorem C1_hybrid_search_failures:
  "(similarity_search m q = Inl e \<longrightarrow> hybrid_search h m hp q top_k = (Inr [], hp))
   \<and> (similarity_search m q = Inr vs \<and> get_relevant_documents m q = Inl TypeError
        \<longrightarrow> hybrid_search h m hp q top_k = (Inr [], hp))
   \<and> (similarity_search m q = Inr vs \<and> get_relevant_documents m q = Inl AttributeError
        \<and> private_get_relevant_documents m q = Inr bs \<and> (vs \<noteq> [] \<or> bs \<noteq> [])
        \<longrightarrow> fst (hybrid_search h m hp q top_k) = Inr (py_slice_to (fst (rrf_rerank h hp vs bs 60)) top_k))
   \<and> (similarity_search m q = Inr vs \<and> get_relevant_documents m q = Inr bs \<and> (vs \<noteq> [] \<or> bs \<noteq> [])
        \<longrightarrow> fst (hybrid_search h m hp q top_k) = Inr (py_slice_to (fst (rrf_rerank h hp vs bs 60)) top_k))"
proof (intro conjI impI)
  assume "similarity_search m q = Inl e"
  then show "hybrid_search h m hp q top_k = (Inr [], hp)" by (simp add: hybrid_search_def)
next
  assume "similarity_search m q = Inr vs \<and> get_relevant_documents m q = Inl TypeError"
  then show "hybrid_search h m hp q top_k = (Inr [], hp)"
    by (simp add: hybrid_search_def bm25_search_def)
next
  assume a: "similarity_search m q = Inr vs \<and> get_relevant_documents m q = Inl AttributeError
        \<and> private_get_relevant_documents m q = Inr bs \<and> (vs \<noteq> [] \<or> bs \<noteq> [])"
  then have "bm25_search m q = Inr (Some bs)" by (simp add: bm25_search_def)
  with a show "fst (hybrid_search h m hp q top_k) = Inr (py_slice_to (fst (rrf_rerank h hp vs bs 60)) top_k)"
    using hybrid_search_ok[of m q vs bs h hp top_k] by auto
next
  assume a: "similarity_search m q = Inr vs \<and> get_relevant_documents m q = Inr bs \<and> (vs \<noteq> [] \<or> bs \<noteq> [])"
  then have "bm25_search m q = Inr (Some bs)" by (simp add: bm25_search_def)
  with a show "fst (hybrid_search h m hp q top_k) = Inr (py_slice_to (fst (rrf_rerank h hp vs bs 60)) top_k)"
    using hybrid_search_ok[of m q vs bs h hp top_k] by auto
qed

theorem C1_hybrid_search_failures_witness:
  "similarity_search (ex_module (Inl (OtherError ''down'')) (Inr [1])) ''q'' = Inl (OtherError ''down'')
   \<and> hybrid_search content_hash (ex_module (Inl (OtherError ''down'')) (Inr [1])) ex_heap ''q'' 5
       = (Inr [], ex_heap)
   \<and> similarity_search (ex_module (Inr [0]) (Inl TypeError)) ''q'' = Inr [0]
   \<and> get_relevant_documents (ex_module (Inr [0]) (Inl TypeError)) ''q'' = Inl TypeError
   \<and> hybrid_search content_hash (ex_module (Inr [0]) (Inl TypeError)) ex_heap ''q'' 5 = (Inr [], ex_heap)
   \<and> similarity_search (ex_module (Inr [0]) (Inr [3])) ''q'' = Inr [0]
   \<and> get_relevant_documents (ex_module (Inr [0]) (Inr [3])) ''q'' = Inr [3]
   \<and> fst (hybrid_search content_hash (ex_module (Inr [0]) (Inr [3])) ex_heap ''q'' 5) = Inr [0, 3]"
proof -
  have a: "similarity_search (ex_module (Inl (OtherError ''down'')) (Inr [1])) ''q'' = Inl (OtherError ''down'')"
    by (simp add: ex_module_def)
  have b: "similarity_search (ex_module (Inr [0]) (Inl TypeError)) ''q'' = Inr [0]
       \<and> get_relevant_documents (ex_module (Inr [0]) (Inl TypeError)) ''q'' = Inl TypeError"
    by (simp add: ex_module_def)
  have c: "similarity_search (ex_module (Inr [0]) (Inr [3])) ''q'' = Inr [0]
       \<and> get_relevant_documents (ex_module (Inr [0]) (Inr [3])) ''q'' = Inr [3] \<and> ([0::nat] \<noteq> [] \<or> [3::nat] \<noteq> [])"
    by (simp add: ex_module_def)
  have r: "py_slice_to (fst (rrf_rerank content_hash ex_heap [0] [3] 60)) 5 = [0, 3]"
    by (simp add: ex_eval)
  note t1 = C1_hybrid_search_failures[of "ex_module (Inl (OtherError ''down'')) (Inr [1])" "''q''"
      "OtherError ''down''" content_hash ex_heap 5]
  note t2 = C1_hybrid_search_failures[of "ex_module (Inr [0]) (Inl TypeError)" "''q''" _ content_hash ex_heap 5 "[0]"]
  note t3 = C1_hybrid_search_failures[of "ex_module (Inr [0]) (Inr [3])" "''q''" _ content_hash ex_heap 5 "[0]" "[3]"]
  show ?thesis using a b c r t1 t2 t3 by simp
qed

theorem C7_hybrid_search_frame_witness:
  "hybrid_search content_hash (ex_module (Inr [0, 1]) (Inr [1, 3])) ex_heap ''q'' 2
     = (Inr [1, 0], snd (hybrid_search content_hash (ex_module (Inr [0, 1]) (Inr [1, 3])) ex_heap ''q'' 2))
   \<and> similarity_search (ex_module (Inr [0, 1]) (Inr [1, 3])) ''q'' = Inr [0, 1]
   \<and> bm25_search (ex_module (Inr [0, 1]) (Inr [1, 3])) ''q'' = Inr (Some [1, 3])
   \<and> doc_metadata (snd (hybrid_search content_hash (ex_module (Inr [0, 1]) (Inr [1, 3])) ex_heap ''q'' 2) 0)
        ''rrf_score'' = Some (PyNum (1 / 61))
   \<and> snd (hybrid_search content_hash (ex_module (Inr [0, 1]) (Inr [1, 3])) ex_heap ''q'' 2) 2 = ex_heap 2
   \<and> page_content (snd (hybrid_search content_hash (ex_module (Inr [0, 1]) (Inr [1, 3])) ex_heap ''q'' 2) 0) = ''a''"
proof -
  let ?m = "ex_module (Inr [0, 1]) (Inr [1, 3])"
  let ?hp' = "snd (hybrid_search content_hash ?m ex_heap ''q'' 2)"
  have run: "hybrid_search content_hash ?m ex_heap ''q'' 2 = (Inr [1, 0], ?hp')"
    by (rule prod_eqI) (simp_all add: ex_eval)
  have eng: "similarity_search ?m ''q'' = Inr [0, 1] \<and> bm25_search ?m ''q'' = Inr (Some [1, 3])"
    by (simp add: ex_module_def bm25_search_def)
  have sc: "fused_score content_hash ex_heap 60 [0, 1] [1, 3] (doc_id_of content_hash ex_heap 0) = 1 / 61"
    by (simp add: ex_eval)
  have pc: "page_content (ex_heap 0) = ''a''" by (simp add: ex_heap_def)
  note t = C7_hybrid_search_frame[OF run]
  have "doc_metadata (?hp' 0) ''rrf_score'' = Some (PyNum (1 / 61))"
    using t eng sc by auto
  moreover have "?hp' 2 = ex_heap 2" using t eng by auto
  moreover have "page_content (?hp' 0) = ''a''" using t pc by auto
  ultimately show ?thesis using run eng by blast
qed

subsection \<open>Repeated runs\<close>







subsection \<open>The hash function\<close>













section \<open>Response cache: results\<close>

lemma od_set_fresh: "k \<notin> fst ` set d \<Longrightarrow> od_set k v d = d @ [(k, v)]"
  by (induction d) auto

lemma od_del_keys: "map fst (od_del k d) = filter (\<lambda>x. x \<noteq> k) (map fst d)"
  by (induction d) (auto simp: od_del_def)

lemma od_del_notin: "k \<notin> fst ` set (od_del k d)"
  by (auto simp: od_del_def)

lemma od_del_absent: "map_of d k = None \<Longrightarrow> od_del k d = d"
  by (induction d) (auto simp: od_del_def split: if_splits)

lemma cache_inserted_eq:
  "cache_inserted md5 cm sid q a md now =
     od_del (generate_key md5 sid q) (cache cm) @
       [(generate_key md5 sid q,
         \<lparr>query = q, answer = a, entry_created_at = now, hit_count = 0,
          entry_metadata = (case md of None \<Rightarrow> Map.empty | Some m \<Rightarrow> m)\<rparr>)]"
proof (cases "map_of (cache cm) (generate_key md5 sid q)")
  case None
  then show ?thesis
    using od_del_notin[of "generate_key md5 sid q" "cache cm"]
    by (simp add: cache_inserted_def od_del_absent od_set_fresh Let_def)
next
  case (Some e)
  then show ?thesis
    using od_del_notin[of "generate_key md5 sid q" "cache cm"]
    by (simp add: cache_inserted_def od_set_fresh Let_def)
qed

lemma lru_evict_drop:
  assumes "0 \<le> ms"
  shows "\<exists>n. lru_evict ms c ev = (None, drop n c, ev + int n)
           \<and> int (length (drop n c)) \<le> ms
           \<and> (\<forall>j<n. int (length (drop j c)) > ms)"
proof (induction c arbitrary: ev)
  case Nil
  show ?case using assms by (intro exI[of _ 0]) simp
next
  case (Cons p ps)
  show ?case
  proof (cases "int (length (p # ps)) > ms")
    case True
    from Cons[of "ev + 1"] obtain n where n: "lru_evict ms ps (ev + 1) = (None, drop n ps, ev + 1 + int n)"
      "int (length (drop n ps)) \<le> ms" "\<forall>j<n. int (length (drop j ps)) > ms" by blast
    have "\<forall>j<Suc n. int (length (drop j (p # ps))) > ms"
    proof (intro allI impI)
      fix j assume "j < Suc n"
      then show "int (length (drop j (p # ps))) > ms"
        using True n(3) by (cases j) auto
    qed
    then show ?thesis using True n(1,2) by (intro exI[of _ "Suc n"]) simp
  next
    case False
    then show ?thesis by (intro exI[of _ 0]) simp
  qed
qed

lemma cache_set_result:
  assumes "0 \<le> max_size cm"
  shows "\<exists>n. cache_set md5 cm sid q a md now =
           (Inr (generate_key md5 sid q),
            cm\<lparr>cache := drop n (cache_inserted md5 cm sid q a md now),
               stats := (stats cm)\<lparr>sets := sets (stats cm) + 1,
                                   evictions := evictions (stats cm) + int n\<rparr>\<rparr>)
         \<and> int (length (drop n (cache_inserted md5 cm sid q a md now))) \<le> max_size cm
         \<and> (\<forall>j<n. int (length (drop j (cache_inserted md5 cm sid q a md now))) > max_size cm)"
proof -
  from lru_evict_drop[OF assms, of "cache_inserted md5 cm sid q a md now" "evictions (stats cm)"]
  obtain n where n: "lru_evict (max_size cm) (cache_inserted md5 cm sid q a md now) (evictions (stats cm))
        = (None, drop n (cache_inserted md5 cm sid q a md now), evictions (stats cm) + int n)"
    "int (length (drop n (cache_inserted md5 cm sid q a md now))) \<le> max_size cm"
    "\<forall>j<n. int (length (drop j (cache_inserted md5 cm sid q a md now))) > max_size cm"
    by blast
  show ?thesis using n by (intro exI[of _ n]) (simp add: cache_set_def Let_def)
qed

lemma recency_ok_filter: "recency_ok tick lu K \<Longrightarrow> recency_ok tick lu (filter P K)"
  by (auto simp: recency_ok_def list_all_iff sorted_wrt_filter)

lemma recency_ok_drop: "recency_ok tick lu K \<Longrightarrow> recency_ok tick lu (drop n K)"
  by (auto simp: recency_ok_def list_all_iff sorted_wrt_drop dest: in_set_dropD)

lemma recency_ok_Suc: "recency_ok tick lu K \<Longrightarrow> recency_ok (Suc tick) lu K"
  by (auto simp: recency_ok_def list_all_iff less_Suc_eq)

lemma recency_ok_touch:
  assumes "recency_ok tick lu K"
  shows "recency_ok (Suc tick) (lu(k := tick)) (filter (\<lambda>x. x \<noteq> k) K @ [k])"
proof -
  let ?K = "filter (\<lambda>x. x \<noteq> k) K"
  have d: "distinct ?K" and b: "\<forall>x\<in>set ?K. lu x < tick" and s: "sorted_wrt (\<lambda>a b. lu a < lu b) ?K"
    using assms by (auto simp: recency_ok_def list_all_iff sorted_wrt_filter)
  have s': "sorted_wrt (\<lambda>a b. (lu(k := tick)) a < (lu(k := tick)) b) ?K"
    by (rule sorted_wrt_mono_rel[OF _ s]) auto
  have "sorted_wrt (\<lambda>a b. (lu(k := tick)) a < (lu(k := tick)) b) (?K @ [k])"
    using s' b by (simp add: sorted_wrt_append)
  moreover have "distinct (?K @ [k])" using d by simp
  moreover have "list_all (\<lambda>x. (lu(k := tick)) x < Suc tick) (?K @ [k])"
    using b by (auto simp: list_all_iff less_Suc_eq)
  ultimately show ?thesis by (simp add: recency_ok_def)
qed

lemma lru_inv_iff:
  "lru_inv (cm, tick, lu) \<longleftrightarrow> recency_ok tick lu (map fst (cache cm)) \<and> int (length (cache cm)) \<le> max_size cm"
  by (simp add: recency_ok_def)

declare lru_inv.simps [simp del]

lemma od_set_last: "k \<notin> fst ` set d \<Longrightarrow> od_set k v (d @ [(k, w)]) = d @ [(k, v)]"
  by (induction d) auto

lemma length_od_del: "length (od_del k d) \<le> length d"
  by (simp add: od_del_def)

lemma length_od_del_present: "map_of d k = Some v \<Longrightarrow> length (od_del k d) < length d"
proof -
  assume "map_of d k = Some v"
  then have "(k, v) \<in> set d" by (rule map_of_SomeD)
  then show ?thesis unfolding od_del_def
    by (rule length_filter_less) simp
qed

lemma cache_get_hit:
  assumes "map_of (cache cm) (generate_key md5 sid q) = Some e" "\<not> is_expired cm e now"
  shows "cache_get md5 cm sid q now =
           (Some (answer e),
            cm\<lparr>cache := od_del (generate_key md5 sid q) (cache cm)
                          @ [(generate_key md5 sid q, e\<lparr>hit_count := hit_count e + 1\<rparr>)],
               stats := (stats cm)\<lparr>hits := hits (stats cm) + 1\<rparr>\<rparr>)"
  using assms od_del_notin[of "generate_key md5 sid q" "cache cm"]
  by (simp add: cache_get_def Let_def od_move_to_end_def od_set_last)

lemma cache_step_inv:
  assumes ms: "0 \<le> max_size cm" and inv: "lru_inv (cm, tick, lu)"
    and step: "cache_step md5 cm op = (err, cm')"
  shows "err = None \<and> max_size cm' = max_size cm
       \<and> lru_inv (cm', Suc tick, (case used_key md5 cm op of None \<Rightarrow> lu | Some k \<Rightarrow> lu(k := tick)))"
proof (cases op)
  case (Get sid q now)
  let ?key = "generate_key md5 sid q"
  from inv have rk: "recency_ok tick lu (map fst (cache cm))" and len: "int (length (cache cm)) \<le> max_size cm"
    by (simp_all add: lru_inv_iff)
  show ?thesis
  proof (cases "map_of (cache cm) ?key")
    case None
    then have "cm' = cm\<lparr>stats := (stats cm)\<lparr>misses := misses (stats cm) + 1\<rparr>\<rparr>" "err = None"
      using step Get by (auto simp: cache_get_def Let_def)
    then show ?thesis using None Get rk len recency_ok_Suc[OF rk] by (simp add: lru_inv_iff)
  next
    case (Some e)
    show ?thesis
    proof (cases "is_expired cm e now")
      case True
      then have cm': "cache cm' = od_del ?key (cache cm)" "max_size cm' = max_size cm" "err = None"
        using step Get Some by (auto simp: cache_get_def Let_def)
      have "recency_ok (Suc tick) lu (map fst (cache cm'))"
        unfolding cm'(1) od_del_keys by (rule recency_ok_Suc[OF recency_ok_filter[OF rk]])
      moreover have "int (length (cache cm')) \<le> max_size cm'"
        using len length_od_del[of ?key "cache cm"] cm' by simp
      ultimately show ?thesis using cm' True Some Get by (simp add: lru_inv_iff)
    next
      case False
      have cm': "cache cm' = od_del ?key (cache cm) @ [(?key, e\<lparr>hit_count := hit_count e + 1\<rparr>)]"
        "max_size cm' = max_size cm" "err = None"
        using step Get cache_get_hit[OF Some False] by auto
      have "recency_ok (Suc tick) (lu(?key := tick)) (map fst (cache cm'))"
        using recency_ok_touch[OF rk, of ?key] by (simp add: cm'(1) od_del_keys)
      moreover have "int (length (cache cm')) \<le> max_size cm'"
        using len length_od_del_present[OF Some] cm' by simp
      ultimately show ?thesis using cm' False Some Get by (simp add: lru_inv_iff)
    qed
  qed
next
  case (Set sid q a md now)
  let ?key = "generate_key md5 sid q"
  let ?c2 = "cache_inserted md5 cm sid q a md now"
  from inv have rk: "recency_ok tick lu (map fst (cache cm))"
    by (simp add: lru_inv_iff)
  from cache_set_result[OF ms, of md5 sid q a md now] obtain n where
    n: "cache_set md5 cm sid q a md now =
           (Inr ?key, cm\<lparr>cache := drop n ?c2,
               stats := (stats cm)\<lparr>sets := sets (stats cm) + 1,
                                   evictions := evictions (stats cm) + int n\<rparr>\<rparr>)"
       "int (length (drop n ?c2)) \<le> max_size cm" by blast
  have cm': "cache cm' = drop n ?c2" "max_size cm' = max_size cm" "err = None"
    using step Set n(1) by auto
  have "recency_ok (Suc tick) (lu(?key := tick)) (map fst ?c2)"
    using recency_ok_touch[OF rk, of ?key] by (simp add: cache_inserted_eq od_del_keys)
  then have "recency_ok (Suc tick) (lu(?key := tick)) (map fst (cache cm'))"
    unfolding cm'(1) drop_map[symmetric] by (rule recency_ok_drop)
  then show ?thesis using cm' n(2) Set by (simp add: lru_inv_iff)
qed

lemma cache_run_inv:
  "0 \<le> max_size cm \<Longrightarrow> lru_inv (cm, tick, lu) \<Longrightarrow>
   cache_run md5 (cm, tick, lu) ops = (err, (cm', tick', lu')) \<Longrightarrow>
     err = None \<and> max_size cm' = max_size cm \<and> lru_inv (cm', tick', lu')"
proof (induction ops arbitrary: cm tick lu)
  case Nil
  then show ?case by simp
next
  case (Cons op ops)
  obtain e1 cm1 where st: "cache_step md5 cm op = (e1, cm1)" by (cases "cache_step md5 cm op") auto
  define lu1 where "lu1 = (case used_key md5 cm op of None \<Rightarrow> lu | Some k \<Rightarrow> lu(k := tick))"
  from cache_step_inv[OF Cons.prems(1,2) st]
  have s1: "e1 = None" "max_size cm1 = max_size cm" "lru_inv (cm1, Suc tick, lu1)"
    by (simp_all add: lu1_def)
  have "cache_run md5 (cm1, Suc tick, lu1) ops = (err, (cm', tick', lu'))"
    using Cons.prems(3) st s1(1) by (simp add: lu1_def Let_def)
  from Cons.IH[OF _ s1(3) this] s1(2) Cons.prems(1) show ?case by simp
qed

lemma lru_inv_new: "0 \<le> ms \<Longrightarrow> lru_inv (new_cache_manager ms t sem, 0, lu)"
  by (simp add: lru_inv_iff recency_ok_def new_cache_manager_def)

text \<open>
  Claim C3. Take a cache as \<open>__init__\<close> makes it, with \<open>max_size \<ge> 0\<close>, and run any
  finite sequence of \<open>set\<close> and \<open>get\<close> operations. No call raises and the table never
  holds more than \<open>max_size\<close> entries. Any further \<open>set\<close> returns its key, evicts from the
  head of the table one entry at a time exactly while the table is over capacity, and
  each entry it evicts was used (stored by \<open>set\<close> or hit by \<open>get\<close>) strictly earlier than
  every entry still in the table at that moment.
\<close>

theorem C3_cache_lru_bound:
  assumes "0 \<le> ms"
    and "cache_run md5 (new_cache_manager ms t sem, 0, (\<lambda>k. 0)) ops = (err, (cm, tick, last_use))"
  shows "err = None \<and> max_size cm = ms \<and> int (length (cache cm)) \<le> ms
       \<and> (\<forall>sid q a md now. \<exists>n.
             cache_set md5 cm sid q a md now
               = (Inr (generate_key md5 sid q),
                  cm\<lparr>cache := drop n (cache_inserted md5 cm sid q a md now),
                     stats := (stats cm)\<lparr>sets := sets (stats cm) + 1,
                                         evictions := evictions (stats cm) + int n\<rparr>\<rparr>)
             \<and> int (length (drop n (cache_inserted md5 cm sid q a md now))) \<le> ms
             \<and> (\<forall>j<n. int (length (drop j (cache_inserted md5 cm sid q a md now))) > ms)
             \<and> (\<forall>i j. i < n \<and> i < j \<and> j < length (cache_inserted md5 cm sid q a md now) \<longrightarrow>
                    (last_use(generate_key md5 sid q := tick)) (fst (cache_inserted md5 cm sid q a md now ! i))
                  < (last_use(generate_key md5 sid q := tick)) (fst (cache_inserted md5 cm sid q a md now ! j))))"
proof -
  have init: "0 \<le> max_size (new_cache_manager ms t sem)" "max_size (new_cache_manager ms t sem) = ms"
    using assms(1) by (simp_all add: new_cache_manager_def)
  from cache_run_inv[OF init(1) lru_inv_new[OF assms(1)] assms(2)] init(2)
  have r: "err = None" "max_size cm = ms" "lru_inv (cm, tick, last_use)" by simp_all
  then have rk: "recency_ok tick last_use (map fst (cache cm))" and len: "int (length (cache cm)) \<le> ms"
    by (simp_all add: lru_inv_iff)
  have ms: "0 \<le> max_size cm" using r(2) assms(1) by simp
  have "\<exists>n. cache_set md5 cm sid q a md now
               = (Inr (generate_key md5 sid q),
                  cm\<lparr>cache := drop n (cache_inserted md5 cm sid q a md now),
                     stats := (stats cm)\<lparr>sets := sets (stats cm) + 1,
                                         evictions := evictions (stats cm) + int n\<rparr>\<rparr>)
             \<and> int (length (drop n (cache_inserted md5 cm sid q a md now))) \<le> ms
             \<and> (\<forall>j<n. int (length (drop j (cache_inserted md5 cm sid q a md now))) > ms)
             \<and> (\<forall>i j. i < n \<and> i < j \<and> j < length (cache_inserted md5 cm sid q a md now) \<longrightarrow>
                    (last_use(generate_key md5 sid q := tick)) (fst (cache_inserted md5 cm sid q a md now ! i))
                  < (last_use(generate_key md5 sid q := tick)) (fst (cache_inserted md5 cm sid q a md now ! j)))"
    for sid q a md now
  proof -
    let ?c2 = "cache_inserted md5 cm sid q a md now"
    let ?lu = "last_use(generate_key md5 sid q := tick)"
    from cache_set_result[OF ms, of md5 sid q a md now] r(2) obtain n where
      n: "cache_set md5 cm sid q a md now
               = (Inr (generate_key md5 sid q),
                  cm\<lparr>cache := drop n ?c2,
                     stats := (stats cm)\<lparr>sets := sets (stats cm) + 1,
                                         evictions := evictions (stats cm) + int n\<rparr>\<rparr>)"
         "int (length (drop n ?c2)) \<le> ms" "\<forall>j<n. int (length (drop j ?c2)) > ms"
      by auto
    have "recency_ok (Suc tick) ?lu (map fst ?c2)"
      using recency_ok_touch[OF rk, of "generate_key md5 sid q"]
      by (simp add: cache_inserted_eq od_del_keys)
    then have "sorted_wrt (\<lambda>a b. ?lu a < ?lu b) (map fst ?c2)"
      by (simp add: recency_ok_def)
    then have "\<forall>i j. i < j \<longrightarrow> j < length ?c2 \<longrightarrow> ?lu (fst (?c2 ! i)) < ?lu (fst (?c2 ! j))"
      by (simp add: sorted_wrt_iff_nth_less del: fun_upd_apply)
    then have "\<forall>i j. i < n \<and> i < j \<and> j < length ?c2 \<longrightarrow> ?lu (fst (?c2 ! i)) < ?lu (fst (?c2 ! j))"
      by blast
    with n show ?thesis by blast
  qed
  then show ?thesis using r(1,2) len by blast
qed

lemma md5_q1: "md5_hexdigest ''q1'' = ''ff33f1b12213e021c2c4a888141953ba''"
  by code_simp

lemma md5_q2: "md5_hexdigest ''q2'' = ''74d502a7131cdac90eecdfb0531c4e87''"
  by code_simp

lemma md5_q3: "md5_hexdigest ''q3'' = ''69855eda6d7282de712fee7eb5235ab1''"
  by code_simp

lemma normalize_q: "normalized ''q1'' = ''q1'' \<and> normalized ''q2'' = ''q2'' \<and> normalized ''q3'' = ''q3''"
  by (simp add: normalized_def py_split_def py_strip_def py_lower_def py_lower_char_def py_isspace_def)

lemma ex_keys:
  "generate_key md5_hexdigest ''s1'' ''q1'' = ''s1:ff33f1b12213e021c2c4a888141953ba''"
  "generate_key md5_hexdigest ''s1'' ''q2'' = ''s1:74d502a7131cdac90eecdfb0531c4e87''"
  "generate_key md5_hexdigest ''s1'' ''q3'' = ''s1:69855eda6d7282de712fee7eb5235ab1''"
  by (simp_all add: generate_key_def normalize_q md5_q1 md5_q2 md5_q3)

text \<open>The equations that evaluate the example run.\<close>

lemmas cache_eval = ex_ops_def new_cache_manager_def cache_set_def cache_get_def cache_inserted_def
  is_expired_def od_del_def od_move_to_end_def Let_def ex_keys

lemma ex_run_keys:
  "fst (cache_run md5_hexdigest (new_cache_manager 2 3600 False, 0, (\<lambda>k. 0)) ex_ops) = None
   \<and> map fst (cache (fst (snd (cache_run md5_hexdigest (new_cache_manager 2 3600 False, 0, (\<lambda>k. 0)) ex_ops))))
       = [''s1:ff33f1b12213e021c2c4a888141953ba'', ''s1:69855eda6d7282de712fee7eb5235ab1'']"
  by (simp add: cache_eval)

theorem C3_cache_lru_bound_witness:
  "(0::int) \<le> 2
   \<and> fst (cache_run md5_hexdigest (new_cache_manager 2 3600 False, 0, (\<lambda>k. 0)) ex_ops) = None
   \<and> map fst (cache (fst (snd (cache_run md5_hexdigest (new_cache_manager 2 3600 False, 0, (\<lambda>k. 0)) ex_ops))))
       = [''s1:ff33f1b12213e021c2c4a888141953ba'', ''s1:69855eda6d7282de712fee7eb5235ab1'']
   \<and> int (length (cache (fst (snd (cache_run md5_hexdigest
             (new_cache_manager 2 3600 False, 0, (\<lambda>k. 0)) ex_ops))))) \<le> 2
   \<and> map fst (cache (snd (cache_set md5_hexdigest
         (fst (snd (cache_run md5_hexdigest (new_cache_manager 2 3600 False, 0, (\<lambda>k. 0)) ex_ops)))
         ''s1'' ''q2'' ''a2'' None 4)))
       = [''s1:69855eda6d7282de712fee7eb5235ab1'', ''s1:74d502a7131cdac90eecdfb0531c4e87'']"
proof -
  let ?r = "cache_run md5_hexdigest (new_cache_manager 2 3600 False, 0, (\<lambda>k. 0)) ex_ops"
  have h0: "(0::int) \<le> 2" by simp
  have h1: "?r = (fst ?r, (fst (snd ?r), fst (snd (snd ?r)), snd (snd (snd ?r))))" by simp
  note t = C3_cache_lru_bound[OF h0 h1]
  have a: "fst ?r = None" and b: "int (length (cache (fst (snd ?r)))) \<le> 2"
    using t by blast+
  have c: "map fst (cache (fst (snd ?r)))
       = [''s1:ff33f1b12213e021c2c4a888141953ba'', ''s1:69855eda6d7282de712fee7eb5235ab1'']"
    by (simp add: cache_eval)
  have d: "map fst (cache (snd (cache_set md5_hexdigest (fst (snd ?r)) ''s1'' ''q2'' ''a2'' None 4)))
       = [''s1:69855eda6d7282de712fee7eb5235ab1'', ''s1:74d502a7131cdac90eecdfb0531c4e87'']"
    by (simp add: cache_eval)
  show ?thesis using h0 a b c d by blast
qed

subsection \<open>Key normalisation\<close>







lemmas normalize_eval = normalized_def py_split_def py_strip_def py_lower_def py_lower_char_def
  py_isspace_def





section \<open>Parent resolution: results\<close>

lemma parent_inv_keys:
  assumes "parent_inv docs P acc"
  shows "set (map fst (fst acc)) = {pid. py_truthy pid \<and> Some pid \<in> set (map parent_id_of P)}"
proof -
  have "set (map fst (fst acc)) = dom (map_of (fst acc))"
    by (simp add: dom_map_of_conv_image_fst)
  also have "\<dots> = {pid. py_truthy pid \<and> Some pid \<in> set (map parent_id_of P)}"
    using assms by (auto simp: parent_inv_def dom_def)
  finally show ?thesis .
qed

lemma relevance_snoc:
  "relevance (P @ [c]) x = relevance P x + (if parent_id_of c = x then 1 else 0)"
  by (simp add: relevance_def)

lemma relevance_zero: "x \<notin> set (map parent_id_of P) \<Longrightarrow> relevance P x = 0"
  by (auto simp: relevance_def filter_empty_conv)

lemma parent_inv_skip:
  assumes inv: "parent_inv docs P acc"
    and skip: "parent_id_of c = None \<or> (\<exists>v. parent_id_of c = Some v \<and> \<not> py_truthy v)"
  shows "parent_inv docs (P @ [c]) acc"
proof -
  have same: "(py_truthy pid \<and> Some pid \<in> set (map parent_id_of (P @ [c])))
              = (py_truthy pid \<and> Some pid \<in> set (map parent_id_of P))" for pid
    using skip by auto
  have rel: "py_truthy pid \<Longrightarrow> relevance (P @ [c]) (Some pid) = relevance P (Some pid)" for pid
    using skip by (auto simp: relevance_snoc)
  have keys: "set (map fst (fst acc)) = {pid. py_truthy pid \<and> Some pid \<in> set (map parent_id_of P)}"
    by (rule parent_inv_keys[OF inv])
  have srt: "sorted_wrt (\<lambda>a b. first_index (map parent_id_of (P @ [c])) (Some a)
                           < first_index (map parent_id_of (P @ [c])) (Some b)) (map fst (fst acc))"
  proof (rule sorted_wrt_mono_rel[where P = "\<lambda>a b. first_index (map parent_id_of P) (Some a)
                           < first_index (map parent_id_of P) (Some b)"])
    fix a b assume "a \<in> set (map fst (fst acc))" "b \<in> set (map fst (fst acc))"
      "first_index (map parent_id_of P) (Some a) < first_index (map parent_id_of P) (Some b)"
    then show "first_index (map parent_id_of (P @ [c])) (Some a)
                 < first_index (map parent_id_of (P @ [c])) (Some b)"
      using keys by (simp add: first_index_append_in)
  next
    show "sorted_wrt (\<lambda>a b. first_index (map parent_id_of P) (Some a)
                           < first_index (map parent_id_of P) (Some b)) (map fst (fst acc))"
      using inv by (simp add: parent_inv_def)
  qed
  show ?thesis
    unfolding parent_inv_def same
    using inv srt rel by (auto simp: parent_inv_def)
qed

lemma parent_inv_take:
  assumes inv: "parent_inv docs P (rel, pmap)"
    and c: "parent_id_of c = Some p" and p: "py_truthy p"
  shows "parent_inv docs (P @ [c])
           (od_set p ((case map_of rel p of None \<Rightarrow> 0 | Some n \<Rightarrow> n) + 1) rel,
            if map_of pmap p = None
            then (case find (\<lambda>doc. parent_id_of doc = Some p) docs of
                    None \<Rightarrow> pmap | Some doc \<Rightarrow> od_set p doc pmap)
            else pmap)"
proof -
  let ?L = "map parent_id_of P"
  let ?L' = "map parent_id_of (P @ [c])"
  let ?rel' = "od_set p ((case map_of rel p of None \<Rightarrow> 0 | Some n \<Rightarrow> n) + 1) rel"
  let ?pmap' = "if map_of pmap p = None
            then (case find (\<lambda>doc. parent_id_of doc = Some p) docs of
                    None \<Rightarrow> pmap | Some doc \<Rightarrow> od_set p doc pmap)
            else pmap"
  from inv have d: "distinct (map fst rel)"
    and r: "\<And>pid. map_of rel pid = (if py_truthy pid \<and> Some pid \<in> set ?L
             then Some (relevance P (Some pid)) else None)"
    and s: "sorted_wrt (\<lambda>a b. first_index ?L (Some a) < first_index ?L (Some b)) (map fst rel)"
    and m: "\<And>pid. map_of pmap pid = (if py_truthy pid \<and> Some pid \<in> set ?L
             then loaded_document docs (Some pid) else None)"
    by (simp_all add: parent_inv_def)
  have keys: "set (map fst rel) = {pid. py_truthy pid \<and> Some pid \<in> set ?L}"
    using parent_inv_keys[OF inv] by simp
  have L': "?L' = ?L @ [Some p]" using c by simp
  have old: "(case map_of rel p of None \<Rightarrow> 0 | Some n \<Rightarrow> n) = relevance P (Some p)"
    using r[of p] p by (simp add: relevance_zero)
  have d': "distinct (map fst ?rel')"
    using d by (simp add: keys_od_set)
  have r': "map_of ?rel' pid = (if py_truthy pid \<and> Some pid \<in> set ?L'
             then Some (relevance (P @ [c]) (Some pid)) else None)" for pid
    unfolding map_of_od_set old L'
    using r[of pid] p c by (auto simp: relevance_snoc)
  have s_old: "sorted_wrt (\<lambda>a b. first_index ?L' (Some a) < first_index ?L' (Some b)) (map fst rel)"
  proof (rule sorted_wrt_mono_rel[OF _ s])
    fix a b assume "a \<in> set (map fst rel)" "b \<in> set (map fst rel)"
      "first_index ?L (Some a) < first_index ?L (Some b)"
    then show "first_index ?L' (Some a) < first_index ?L' (Some b)"
      unfolding L' using keys by (simp add: first_index_append_in)
  qed
  have s': "sorted_wrt (\<lambda>a b. first_index ?L' (Some a) < first_index ?L' (Some b)) (map fst ?rel')"
  proof (cases "p \<in> set (map fst rel)")
    case True
    then show ?thesis using s_old by (simp add: keys_od_set)
  next
    case False
    then have notin: "Some p \<notin> set ?L" using keys p by auto
    have "\<forall>a\<in>set (map fst rel). first_index ?L' (Some a) < first_index ?L' (Some p)"
    proof
      fix a assume "a \<in> set (map fst rel)"
      then have a: "Some a \<in> set ?L" using keys by auto
      have lt: "first_index ?L (Some a) < length ?L" using a by (rule first_index_less)
      have "first_index (?L @ [Some p]) (Some a) = first_index ?L (Some a)"
        using a by (rule first_index_append_in)
      moreover have "first_index (?L @ [Some p]) (Some p) = length ?L + first_index [Some p] (Some p)"
        using notin by (rule first_index_append_notin)
      ultimately show "first_index ?L' (Some a) < first_index ?L' (Some p)"
        unfolding L' using lt by simp
    qed
    then show ?thesis using s_old False
      by (simp add: keys_od_set sorted_wrt_append del: map_append)
  qed
  have m': "map_of ?pmap' pid = (if py_truthy pid \<and> Some pid \<in> set ?L'
             then loaded_document docs (Some pid) else None)" for pid
  proof (cases "pid = p")
    case True
    show ?thesis
    proof (cases "map_of pmap p")
      case None
      then show ?thesis using True p L'
        by (auto simp: loaded_document_def map_of_od_set split: option.splits)
    next
      case (Some doc)
      then show ?thesis using True p L' m[of p] by (auto split: if_splits)
    qed
  next
    case False
    then have "map_of ?pmap' pid = map_of pmap pid"
      by (auto simp: map_of_od_set split: option.splits)
    then show ?thesis using False m[of pid] L' by auto
  qed
  show ?thesis
    unfolding parent_inv_def fst_conv snd_conv
    using d' r' s' m' by blast
qed

lemma parent_step_inv:
  assumes "parent_inv docs P acc"
  shows "parent_inv docs (P @ [c]) (parent_step docs c acc)"
proof (cases acc)
  case (Pair rel pmap)
  show ?thesis
  proof (cases "parent_id_of c")
    case None
    then have "parent_step docs c acc = acc" by (simp add: parent_step_def Pair)
    then show ?thesis using parent_inv_skip[OF assms] None by simp
  next
    case (Some p)
    show ?thesis
    proof (cases "py_truthy p")
      case True
      from parent_inv_take[OF assms[unfolded Pair] Some True]
      show ?thesis using Some True by (simp add: parent_step_def Pair)
    next
      case False
      then have "parent_step docs c acc = acc" using Some by (simp add: parent_step_def Pair)
      then show ?thesis using parent_inv_skip[OF assms, of c] Some False by simp
    qed
  qed
qed

lemma parent_fold_inv: "parent_inv docs P (fold (parent_step docs) P ([], []))"
proof (induction P rule: rev_induct)
  case Nil
  show ?case by (simp add: parent_inv_def)
next
  case (snoc c P)
  then show ?case using parent_step_inv[of docs P _ c] by simp
qed

lemma map_map_filter_Some:
  assumes "\<forall>x\<in>set xs. \<forall>d. g x = Some d \<longrightarrow> f d = Some x"
  shows "map f (List.map_filter g xs) = map Some (filter (\<lambda>x. g x \<noteq> None) xs)"
  using assms by (induction xs) (auto simp: map_filter_simps split: option.splits)

lemma set_map_filter: "set (List.map_filter g xs) = {d. \<exists>x\<in>set xs. g x = Some d}"
  by (induction xs) (auto simp: map_filter_simps split: option.splits)

lemma loaded_document_Some:
  "loaded_document docs x = Some d \<Longrightarrow> parent_id_of d = x \<and> d \<in> set docs"
  by (auto simp: loaded_document_def find_Some_iff)

lemma get_parent_documents_example:
  assumes "parent_id_of f1 = Some p1" "parent_id_of f2 = Some p2" "parent_id_of f3 = Some p1"
    and "p1 \<noteq> p2" "py_truthy p1" "py_truthy p2"
    and "loaded_document (documents m) (Some p1) = Some P1"
    and "loaded_document (documents m) (Some p2) = Some P2"
  shows "get_parent_documents m [f1, f2, f3] = [P1, P2]"
  using assms
  by (simp add: get_parent_documents_def parent_step_def loaded_document_def py_sorted_reverse_def
      map_filter_simps)

text \<open>
  Claim C5. \<open>get_parent_documents\<close> is total (it has no failing branch). Its result holds
  each parent id once: exactly the usable parent ids of the input fragments for which a
  document is loaded, so fragments with an unknown parent id are skipped. Each returned
  document is the loaded document of its id. The result is ordered by relevance (the
  number of input fragments with that parent id), descending, and among equal relevance
  by the position of the id's first fragment in the input. For fragments with parent ids
  \<open>[p1, p2, p1]\<close> and loaded documents \<open>P1\<close>, \<open>P2\<close> the result is \<open>[P1, P2]\<close>.
\<close>

theorem C5_get_parent_documents:
  "distinct (map parent_id_of (get_parent_documents m child_chunks))
   \<and> set (map parent_id_of (get_parent_documents m child_chunks))
       = {x. usable_parent_id x \<and> x \<in> set (map parent_id_of child_chunks)
             \<and> loaded_document (documents m) x \<noteq> None}
   \<and> (\<forall>d\<in>set (get_parent_documents m child_chunks).
          loaded_document (documents m) (parent_id_of d) = Some d)
   \<and> sorted_wrt (\<lambda>a b. relevance child_chunks a > relevance child_chunks b
          \<or> (relevance child_chunks a = relevance child_chunks b
             \<and> first_index (map parent_id_of child_chunks) a
                < first_index (map parent_id_of child_chunks) b))
        (map parent_id_of (get_parent_documents m child_chunks))
   \<and> (\<forall>f1 f2 f3 p1 p2 P1 P2.
         parent_id_of f1 = Some p1 \<and> parent_id_of f2 = Some p2 \<and> parent_id_of f3 = Some p1
         \<and> p1 \<noteq> p2 \<and> py_truthy p1 \<and> py_truthy p2
         \<and> loaded_document (documents m) (Some p1) = Some P1
         \<and> loaded_document (documents m) (Some p2) = Some P2
         \<longrightarrow> get_parent_documents m [f1, f2, f3] = [P1, P2])"
proof -
  let ?docs = "documents m"
  let ?L = "map parent_id_of child_chunks"
  obtain rel pmap where acc: "fold (parent_step ?docs) child_chunks ([], []) = (rel, pmap)"
    by (cases "fold (parent_step ?docs) child_chunks ([], [])") auto
  define rk where "rk = (\<lambda>x. case map_of rel x of None \<Rightarrow> (0::int) | Some n \<Rightarrow> n)"
  define ids where "ids = py_sorted_reverse rk (map fst rel)"
  define res where "res = get_parent_documents m child_chunks"
  have res: "res = List.map_filter (map_of pmap) ids"
    by (simp add: res_def get_parent_documents_def acc ids_def rk_def)
  have inv: "parent_inv ?docs child_chunks (rel, pmap)"
    using parent_fold_inv[of ?docs child_chunks] acc by simp
  then have d: "distinct (map fst rel)"
    and r: "\<And>pid. map_of rel pid = (if py_truthy pid \<and> Some pid \<in> set ?L
             then Some (relevance child_chunks (Some pid)) else None)"
    and s: "sorted_wrt (\<lambda>a b. first_index ?L (Some a) < first_index ?L (Some b)) (map fst rel)"
    and pm: "\<And>pid. map_of pmap pid = (if py_truthy pid \<and> Some pid \<in> set ?L
             then loaded_document ?docs (Some pid) else None)"
    by (simp_all add: parent_inv_def)
  have keys: "set (map fst rel) = {pid. py_truthy pid \<and> Some pid \<in> set ?L}"
    using parent_inv_keys[OF inv] by simp
  have ids_set: "set ids = {pid. py_truthy pid \<and> Some pid \<in> set ?L}"
    using keys by (simp add: ids_def set_py_sorted_reverse)
  have ids_distinct: "distinct ids"
    using distinct_py_sorted_reverse[of "\<lambda>x. x" rk "map fst rel"] d by (simp add: ids_def)
  have rk: "rk x = relevance child_chunks (Some x)" if "x \<in> set ids" for x
    using that ids_set r[of x] by (simp add: rk_def)
  have ids_sorted: "sorted_wrt (\<lambda>a b. rk a > rk b \<or> (rk a = rk b
        \<and> first_index ?L (Some a) < first_index ?L (Some b))) ids"
    unfolding ids_def by (rule py_sorted_reverse_stable[OF s])
  have found: "\<forall>x\<in>set ids. \<forall>doc. map_of pmap x = Some doc \<longrightarrow> parent_id_of doc = Some x"
    using pm loaded_document_Some by (auto split: if_splits)
  have pids: "map parent_id_of res = map Some (filter (\<lambda>x. map_of pmap x \<noteq> None) ids)"
    unfolding res by (rule map_map_filter_Some[OF found])
  have c1: "distinct (map parent_id_of res)"
    unfolding pids using ids_distinct by (simp add: distinct_map)
  have c2: "set (map parent_id_of res)
       = {x. usable_parent_id x \<and> x \<in> set ?L \<and> loaded_document ?docs x \<noteq> None}"
  proof -
    have "set (map parent_id_of res) = Some ` {x \<in> set ids. map_of pmap x \<noteq> None}"
      unfolding pids by auto
    also have "\<dots> = {x. usable_parent_id x \<and> x \<in> set ?L \<and> loaded_document ?docs x \<noteq> None}"
      using ids_set pm by (auto simp: usable_parent_id_def image_iff split: option.splits)
    finally show ?thesis .
  qed
  have c3: "\<forall>doc\<in>set res. loaded_document ?docs (parent_id_of doc) = Some doc"
  proof
    fix doc assume "doc \<in> set res"
    then obtain x where x: "x \<in> set ids" "map_of pmap x = Some doc"
      unfolding res by (auto simp: set_map_filter)
    then have l: "loaded_document ?docs (Some x) = Some doc"
      using pm[of x] by (auto split: if_splits)
    from loaded_document_Some[OF l] l show "loaded_document ?docs (parent_id_of doc) = Some doc" by simp
  qed
  have c4: "sorted_wrt (\<lambda>a b. relevance child_chunks a > relevance child_chunks b
          \<or> (relevance child_chunks a = relevance child_chunks b
             \<and> first_index ?L a < first_index ?L b)) (map parent_id_of res)"
  proof -
    have "sorted_wrt (\<lambda>a b. relevance child_chunks (Some a) > relevance child_chunks (Some b)
          \<or> (relevance child_chunks (Some a) = relevance child_chunks (Some b)
             \<and> first_index ?L (Some a) < first_index ?L (Some b))) ids"
    proof (rule sorted_wrt_mono_rel[OF _ ids_sorted])
      fix a b assume "a \<in> set ids" "b \<in> set ids"
        "rk a > rk b \<or> (rk a = rk b \<and> first_index ?L (Some a) < first_index ?L (Some b))"
      then show "relevance child_chunks (Some a) > relevance child_chunks (Some b)
          \<or> (relevance child_chunks (Some a) = relevance child_chunks (Some b)
             \<and> first_index ?L (Some a) < first_index ?L (Some b))"
        using rk[of a] rk[of b] by simp
    qed
    then have "sorted_wrt (\<lambda>a b. relevance child_chunks (Some a) > relevance child_chunks (Some b)
          \<or> (relevance child_chunks (Some a) = relevance child_chunks (Some b)
             \<and> first_index ?L (Some a) < first_index ?L (Some b)))
          (filter (\<lambda>x. map_of pmap x \<noteq> None) ids)"
      by (rule sorted_wrt_filter)
    then show ?thesis unfolding pids by (simp only: sorted_wrt_map)
  qed
  have c5: "\<forall>f1 f2 f3 p1 p2 P1 P2.
         parent_id_of f1 = Some p1 \<and> parent_id_of f2 = Some p2 \<and> parent_id_of f3 = Some p1
         \<and> p1 \<noteq> p2 \<and> py_truthy p1 \<and> py_truthy p2
         \<and> loaded_document (documents m) (Some p1) = Some P1
         \<and> loaded_document (documents m) (Some p2) = Some P2
         \<longrightarrow> get_parent_documents m [f1, f2, f3] = [P1, P2]"
    using get_parent_documents_example[of _ _ _ _ _ m] by blast
  show ?thesis using c1 c2 c3 c4 c5 unfolding res_def by blast
qed

theorem C5_get_parent_documents_witness:
  "parent_id_of (ex_doc ''f1'' ''P1'') = Some (PyStr ''P1'')
   \<and> parent_id_of (ex_doc ''f2'' ''P2'') = Some (PyStr ''P2'')
   \<and> parent_id_of (ex_doc ''f3'' ''P1'') = Some (PyStr ''P1'')
   \<and> PyStr ''P1'' \<noteq> PyStr ''P2'' \<and> py_truthy (PyStr ''P1'') \<and> py_truthy (PyStr ''P2'')
   \<and> loaded_document (documents ex_prep) (Some (PyStr ''P1'')) = Some (ex_doc ''recipe one'' ''P1'')
   \<and> loaded_document (documents ex_prep) (Some (PyStr ''P2'')) = Some (ex_doc ''recipe two'' ''P2'')
   \<and> get_parent_documents ex_prep [ex_doc ''f1'' ''P1'', ex_doc ''f2'' ''P2'', ex_doc ''f3'' ''P1'']
       = [ex_doc ''recipe one'' ''P1'', ex_doc ''recipe two'' ''P2'']
   \<and> get_parent_documents ex_prep [ex_doc ''f0'' ''P9'', ex_doc ''f2'' ''P2'']
       = [ex_doc ''recipe two'' ''P2'']"
proof -
  have a: "parent_id_of (ex_doc ''f1'' ''P1'') = Some (PyStr ''P1'')
   \<and> parent_id_of (ex_doc ''f2'' ''P2'') = Some (PyStr ''P2'')
   \<and> parent_id_of (ex_doc ''f3'' ''P1'') = Some (PyStr ''P1'')
   \<and> PyStr ''P1'' \<noteq> PyStr ''P2'' \<and> py_truthy (PyStr ''P1'') \<and> py_truthy (PyStr ''P2'')"
    by (simp add: parent_id_of_def ex_doc_def)
  have b: "loaded_document (documents ex_prep) (Some (PyStr ''P1'')) = Some (ex_doc ''recipe one'' ''P1'')
   \<and> loaded_document (documents ex_prep) (Some (PyStr ''P2'')) = Some (ex_doc ''recipe two'' ''P2'')"
    by (simp add: loaded_document_def ex_prep_def parent_id_of_def ex_doc_def)
  have c: "get_parent_documents ex_prep [ex_doc ''f0'' ''P9'', ex_doc ''f2'' ''P2'']
       = [ex_doc ''recipe two'' ''P2'']"
    by (simp add: get_parent_documents_def parent_step_def ex_prep_def parent_id_of_def ex_doc_def
        py_sorted_reverse_def map_filter_simps)
  note t = C5_get_parent_documents[of ex_prep "[]"]
  show ?thesis using a b c t by blast
qed

end
